theory Spec2Isabelle
  imports Complex_Main "HOL-Library.AList"
begin

section \<open>Brain parts and projectables\<close>

text \<open>
  The component classes read by the engine and by the scheduler. An area carries a neuron
  count \<open>n\<close> and a winner quota \<open>k\<close>, a stimulus a neuron count; the first field is the
  identity of the object (two parts are the same dictionary key exactly when all fields
  agree). A \<open>BrainPart\<close> is an area or a stimulus; a \<open>Projectable\<close> is a stimulus or an
  assembly, and an assembly has an owning area and a list of parents.
\<close>

datatype area = MkArea (area_name: nat) (area_n: nat) (area_k: nat)

datatype stimulus = MkStimulus (stim_name: nat) (stim_n: nat)

datatype brain_part = Area area | Stimulus stimulus

datatype projectable =
    PStimulus stimulus
  | Assembly (asm_name: nat) (asm_area: area) (asm_parents: "projectable list")

fun part_n :: "brain_part \<Rightarrow> nat" where
  "part_n (Area a) = area_n a"
| "part_n (Stimulus s) = stim_n s"

fun is_Assembly :: "projectable \<Rightarrow> bool" where
  "is_Assembly (Assembly _ _ _) = True"
| "is_Assembly (PStimulus _) = False"

fun is_PStimulus :: "projectable \<Rightarrow> bool" where
  "is_PStimulus (PStimulus _) = True"
| "is_PStimulus (Assembly _ _ _) = False"

section \<open>Python dictionaries\<close>

text \<open>
  A \<open>dict\<close> keeps its keys in insertion order: it is an association list with distinct
  keys. \<open>d[k] = v\<close> is \<^const>\<open>AList.update\<close> (the value is replaced in place when the key
  is present, the pair is appended otherwise) and \<open>d.get(k, default)\<close> is \<open>dict_get\<close>.
\<close>

type_synonym ('k, 'v) dict = "('k \<times> 'v) list"

definition dict_get :: "('k, 'v) dict \<Rightarrow> 'k \<Rightarrow> 'v \<Rightarrow> 'v" where
  "dict_get d k dflt = (case map_of d k of None \<Rightarrow> dflt | Some v \<Rightarrow> v)"

section \<open>The firing scheduler: \<open>fire_many\<close>\<close>

type_synonym layer = "(projectable, area list) dict"

type_synonym mapping = "(brain_part, area list) dict"

text \<open>The first layer: \<open>{projectable: [area] for projectable in projectables}\<close>.\<close>

definition first_layer :: "projectable list \<Rightarrow> area \<Rightarrow> layer" where
  "first_layer projectables area = foldl (\<lambda>d p. AList.update p [area] d) [] projectables"

text \<open>
  The body of the inner loop, for one parent of \<open>ass\<close>:
  \<open>current_layer[parent] = current_layer.get(ass, []) + [ass.area]\<close>.
\<close>

definition add_parent :: "projectable \<Rightarrow> layer \<Rightarrow> projectable \<Rightarrow> layer" where
  "add_parent ass current_layer parent =
     AList.update parent (dict_get current_layer ass [] @ [asm_area ass]) current_layer"

text \<open>\<open>for parent in ass.parents: ...\<close>; only assemblies reach this loop.\<close>

fun expand :: "layer \<Rightarrow> projectable \<Rightarrow> layer" where
  "expand current_layer (Assembly nm a ps) =
     foldl (add_parent (Assembly nm a ps)) current_layer ps"
| "expand current_layer (PStimulus s) = current_layer"

text \<open>
  One pass of the \<open>while\<close> body: \<open>prev_layer\<close> is the keys of the last layer that are not
  stimuli, in key order, and \<open>current_layer\<close> starts empty.
\<close>

definition prev_layer :: "layer \<Rightarrow> projectable list" where
  "prev_layer l = filter (\<lambda>ass. \<not> is_PStimulus ass) (map fst l)"

definition next_layer :: "layer \<Rightarrow> layer" where
  "next_layer l = foldl expand [] (prev_layer l)"

definition any_Assembly :: "layer \<Rightarrow> bool" where
  "any_Assembly l = list_ex is_Assembly (map fst l)"

text \<open>
  The height of a projectable in the parent graph, the measure under which the \<open>while\<close>
  loop terminates: parents are a finite datatype, so the graph has no cycle.
\<close>

fun height :: "projectable \<Rightarrow> nat" where
  "height (PStimulus s) = 0"
| "height (Assembly nm a ps) = Suc (foldr max (map height ps) 0)"

definition layer_height :: "layer \<Rightarrow> nat" where
  "layer_height l = foldr max (map (height \<circ> fst) l) 0"

subsection \<open>Termination of the layer-building loop\<close>

lemma keys_add_parent: "fst ` set (add_parent ass cur p) = insert p (fst ` set cur)"
  by (simp add: add_parent_def dom_update)

lemma keys_foldl_add_parent:
  "fst ` set (foldl (add_parent ass) cur ps) = set ps \<union> fst ` set cur"
  by (induction ps arbitrary: cur) (auto simp: keys_add_parent)

lemma keys_expand:
  "fst ` set (expand cur ass) \<subseteq> set (asm_parents ass) \<union> fst ` set cur"
  by (cases ass) (auto simp: keys_foldl_add_parent)

lemma keys_foldl_expand:
  "fst ` set (foldl expand cur asss) \<subseteq> (\<Union>ass\<in>set asss. set (asm_parents ass)) \<union> fst ` set cur"
proof (induction asss arbitrary: cur)
  case Nil
  then show ?case by simp
next
  case (Cons a asss)
  have "fst ` set (foldl expand (expand cur a) asss)
        \<subseteq> (\<Union>ass\<in>set asss. set (asm_parents ass)) \<union> fst ` set (expand cur a)"
    by (rule Cons.IH)
  moreover note keys_expand [of cur a]
  ultimately show ?case by (simp only: foldl_Cons set_simps UN_insert) blast
qed

lemma foldr_max_le: "foldr max (map f xs) (0::nat) \<le> m \<longleftrightarrow> (\<forall>x\<in>set xs. f x \<le> m)"
  by (induction xs) auto

lemma foldr_max_ge: "x \<in> set xs \<Longrightarrow> f x \<le> foldr max (map f xs) (0::nat)"
  by (induction xs) auto

lemma height_parent: "is_Assembly ass \<Longrightarrow> p \<in> set (asm_parents ass) \<Longrightarrow> height p < height ass"
  by (cases ass) (auto simp: less_Suc_eq_le foldr_max_ge)

lemma layer_height_next:
  assumes "any_Assembly l"
  shows "layer_height (next_layer l) < layer_height l"
proof -
  from assms obtain a where a: "a \<in> fst ` set l" "is_Assembly a"
    by (auto simp: any_Assembly_def list_ex_iff)
  then have pos: "0 < layer_height l"
    using foldr_max_ge [of _ l "height \<circ> fst"]
    by (cases a) (force simp: layer_height_def)+
  have "\<forall>q\<in>set (next_layer l). (height \<circ> fst) q \<le> layer_height l - 1"
  proof
    fix q assume "q \<in> set (next_layer l)"
    then have "fst q \<in> fst ` set (foldl expand [] (prev_layer l))"
      by (auto simp: next_layer_def)
    with keys_foldl_expand [of "[]" "prev_layer l"]
    obtain ass where ass: "ass \<in> set (prev_layer l)" "fst q \<in> set (asm_parents ass)"
      by auto
    then obtain e where e: "e \<in> set l" "fst e = ass" "\<not> is_PStimulus ass"
      by (auto simp: prev_layer_def)
    then have "is_Assembly ass" by (cases ass) auto
    with ass have "height (fst q) < height ass" by (simp add: height_parent)
    moreover have "height ass \<le> layer_height l"
      using foldr_max_ge [OF e(1), of "height \<circ> fst"] e(2) by (simp add: layer_height_def)
    ultimately show "(height \<circ> fst) q \<le> layer_height l - 1" by simp
  qed
  then have "layer_height (next_layer l) \<le> layer_height l - 1"
    unfolding layer_height_def [of "next_layer l"] by (simp only: foldr_max_le)
  with pos show ?thesis by simp
qed

text \<open>
  \<open>while any(isinstance(projectable, Assembly) for projectable in layers[-1]): ...
  layers.append(current_layer)\<close>. \<open>parent_layers l\<close> is the list \<open>layers\<close> at the end of
  the loop when \<open>l\<close> is its last element at the start: \<open>l\<close> followed by the layers the
  loop appends.
\<close>

function parent_layers :: "layer \<Rightarrow> layer list" where
  "parent_layers l = (if any_Assembly l then l # parent_layers (next_layer l) else [l])"
  by pat_completeness auto
termination
  by (relation "measure layer_height") (auto simp: layer_height_next)

declare parent_layers.simps [simp del]

subsection \<open>Turning a layer into the mapping of one round\<close>

text \<open>
  \<open>stimuli_mappings = {stim: areas for stim, areas in layer.items() if isinstance(stim,
  Stimulus)}\<close>, keyed by the stimulus as a brain part.
\<close>

fun add_stimulus_entry :: "mapping \<Rightarrow> projectable \<times> area list \<Rightarrow> mapping" where
  "add_stimulus_entry m (PStimulus stim, areas) = AList.update (Stimulus stim) areas m"
| "add_stimulus_entry m (Assembly nm a ps, areas) = m"

definition stimuli_mappings :: "layer \<Rightarrow> mapping" where
  "stimuli_mappings l = foldl add_stimulus_entry [] l"

text \<open>
  \<open>assembly_mapping[ass.area] = assembly_mapping.get(ass.area, []) + areas\<close> for the
  assembly entries of the layer, keyed by the owning area as a brain part.
\<close>

fun add_assembly_entry :: "mapping \<Rightarrow> projectable \<times> area list \<Rightarrow> mapping" where
  "add_assembly_entry m (Assembly nm a ps, areas) =
     AList.update (Area a) (dict_get m (Area a) [] @ areas) m"
| "add_assembly_entry m (PStimulus stim, areas) = m"

definition assembly_mapping :: "layer \<Rightarrow> mapping" where
  "assembly_mapping l = foldl add_assembly_entry [] l"

text \<open>\<open>{**d1, **d2}\<close>: the items of \<open>d1\<close>, then those of \<open>d2\<close> stored one by one.\<close>

definition dict_merge :: "('k, 'v) dict \<Rightarrow> ('k, 'v) dict \<Rightarrow> ('k, 'v) dict" where
  "dict_merge d1 d2 = foldl (\<lambda>d (k, v). AList.update k v d) d1 d2"

definition round_mapping :: "layer \<Rightarrow> mapping" where
  "round_mapping l = dict_merge (stimuli_mappings l) (assembly_mapping l)"

text \<open>
  The mappings handed to \<open>brain.next_round\<close>, in call order: the layers reversed
  (\<open>layers[::-1]\<close>), each turned into its mapping.
\<close>

definition fire_many_rounds :: "projectable list \<Rightarrow> area \<Rightarrow> mapping list" where
  "fire_many_rounds projectables area =
     map round_mapping (rev (parent_layers (first_layer projectables area)))"

text \<open>
  \<open>fire_many\<close> itself. The class \<open>Brain\<close> is not part of the sources at hand, so
  \<open>brain.next_round\<close> is a parameter: a step on the brain's state that may raise. The
  first round that raises ends the call. \<open>Projectable\<close> is taken to have the two variants
  that the function tests for, \<open>Stimulus\<close> and \<open>Assembly\<close>.
\<close>

fun run_rounds :: "('b \<Rightarrow> mapping \<Rightarrow> 'e + 'b) \<Rightarrow> 'b \<Rightarrow> mapping list \<Rightarrow> 'e + 'b" where
  "run_rounds next_round brain [] = Inr brain"
| "run_rounds next_round brain (m # ms) =
     (case next_round brain m of
        Inl e \<Rightarrow> Inl e
      | Inr brain' \<Rightarrow> run_rounds next_round brain' ms)"

definition fire_many ::
  "('b \<Rightarrow> mapping \<Rightarrow> 'e + 'b) \<Rightarrow> 'b \<Rightarrow> projectable list \<Rightarrow> area \<Rightarrow> 'e + 'b" where
  "fire_many next_round brain projectables area =
     run_rounds next_round brain (fire_many_rounds projectables area)"

section \<open>The connectome\<close>

text \<open>
  Weights are modelled as real numbers: the rounding of the floating-point product
  \<open>w * (1 + beta)\<close> is not represented. A synapse matrix of shape \<open>[source.n, dest.n]\<close>
  is a function of a row index (a neuron of the source) and a column index (a neuron of
  the destination); its shape is that of the two parts of its key and never changes.
\<close>

datatype error = KeyError | IndexError | ValueError

record connection =
  source :: brain_part
  dest :: brain_part
  synapses :: "nat \<Rightarrow> nat \<Rightarrow> real"
  beta :: real

text \<open>
  Modelled from the spec: the class \<open>AbstractConnectome\<close>, which declares the fields that
  \<open>Connectome\<close> reads, is not part of the sources at hand. The connectome owns the
  registered areas and stimuli, the connections keyed by the pair of their parts, the
  winners of every area (created empty, so \<open>winners\<close> is total), the edge probability
  \<open>p\<close> and the flag that disables plasticity; \<open>rng\<close> is the state of the random generator
  \<open>self.rng\<close>.
\<close>

record 'r connectome =
  areas :: "area list"
  stimuli :: "stimulus list"
  connections :: "brain_part \<times> brain_part \<rightharpoonup> connection"
  winners :: "area \<Rightarrow> nat list"
  p :: real
  plasticity_disabled :: bool
  rng :: 'r

text \<open>
  Three parts of the engine are outside the sources at hand and are parameters of the
  model:
  \<^item> \<open>gen\<close>, for \<open>self.rng.multi_generate(area.n, part.n, self.p).reshape((part.n,
    area.n), order='F')\<close>: from the generator's state and the three arguments, the
    entries of the reshaped matrix and the generator's next state;
  \<^item> \<open>beta_of\<close>, for the property \<open>beta\<close> of the class \<open>Connection\<close>, fixed when the
    connection is built from its two parts;
  \<^item> \<open>ap\<close>, for \<open>numpy.argpartition\<close> on a one-dimensional array and an index \<open>kth\<close>
    within bounds.
\<close>

type_synonym 'r generator = "'r \<Rightarrow> nat \<Rightarrow> nat \<Rightarrow> real \<Rightarrow> (nat \<Rightarrow> nat \<Rightarrow> real) \<times> 'r"

type_synonym argpartition = "real list \<Rightarrow> nat \<Rightarrow> nat list"

text \<open>
  Modelled from the spec: the constructor of \<open>AbstractConnectome\<close> is not part of the
  sources at hand. A connectome with no part, no connection, empty winners and
  plasticity enabled.
\<close>

definition empty_connectome :: "real \<Rightarrow> 'r \<Rightarrow> 'r connectome" where
  "empty_connectome prob r =
     \<lparr>areas = [], stimuli = [], connections = Map.empty, winners = (\<lambda>a. []),
      p = prob, plasticity_disabled = False, rng = r\<rparr>"

subsection \<open>Registration\<close>

text \<open>
  \<open>_initialize_connection(part, area)\<close>: a fresh matrix is generated and stored under the
  key \<open>(part, area)\<close>, replacing any connection already there.
\<close>

definition initialize_connection ::
  "'r generator \<Rightarrow> (brain_part \<Rightarrow> brain_part \<Rightarrow> real) \<Rightarrow> brain_part \<Rightarrow> brain_part \<Rightarrow>
   'r connectome \<Rightarrow> 'r connectome" where
  "initialize_connection gen beta_of part area c =
     (let (syn, r') = gen (rng c) (part_n area) (part_n part) (p c)
      in c\<lparr>connections := (connections c)((part, area) \<mapsto>
              \<lparr>source = part, dest = area, synapses = syn, beta = beta_of part area\<rparr>),
           rng := r'\<rparr>)"

fun is_Area :: "brain_part \<Rightarrow> bool" where
  "is_Area (Area a) = True"
| "is_Area (Stimulus s) = False"

text \<open>
  The body of the inner loop of \<open>_initialize_parts\<close>:
  \<open>self._initialize_connection(part, other)\<close>, then, \<open>if isinstance(part, Area) and part !=
  other\<close>, \<open>self._initialize_connection(other, part)\<close>.
\<close>

definition initialize_pair ::
  "'r generator \<Rightarrow> (brain_part \<Rightarrow> brain_part \<Rightarrow> real) \<Rightarrow> brain_part \<Rightarrow>
   'r connectome \<Rightarrow> brain_part \<Rightarrow> 'r connectome" where
  "initialize_pair gen beta_of part c other =
     (let c1 = initialize_connection gen beta_of part other c
      in if is_Area part \<and> part \<noteq> other
         then initialize_connection gen beta_of other part c1 else c1)"

text \<open>\<open>self.areas + self.stimuli\<close>.\<close>

definition all_parts :: "'r connectome \<Rightarrow> brain_part list" where
  "all_parts c = map Area (areas c) @ map Stimulus (stimuli c)"

definition initialize_parts ::
  "'r generator \<Rightarrow> (brain_part \<Rightarrow> brain_part \<Rightarrow> real) \<Rightarrow> 'r connectome \<Rightarrow>
   brain_part list \<Rightarrow> 'r connectome" where
  "initialize_parts gen beta_of c parts =
     foldl (\<lambda>c part. foldl (initialize_pair gen beta_of part) c (all_parts c)) c parts"

text \<open>
  Modelled from the spec: \<open>super().add_area(area)\<close> and \<open>super().add_stimulus(stimulus)\<close>
  belong to \<open>AbstractConnectome\<close>, which is not part of the sources at hand; they add the
  part to the registered areas, respectively stimuli. \<open>add_area\<close> and \<open>add_stimulus\<close> then
  call \<open>_initialize_parts\<close> on the new part.
\<close>

definition add_area ::
  "'r generator \<Rightarrow> (brain_part \<Rightarrow> brain_part \<Rightarrow> real) \<Rightarrow> 'r connectome \<Rightarrow> area \<Rightarrow>
   'r connectome" where
  "add_area gen beta_of c area =
     initialize_parts gen beta_of (c\<lparr>areas := areas c @ [area]\<rparr>) [Area area]"

definition add_stimulus ::
  "'r generator \<Rightarrow> (brain_part \<Rightarrow> brain_part \<Rightarrow> real) \<Rightarrow> 'r connectome \<Rightarrow> stimulus \<Rightarrow>
   'r connectome" where
  "add_stimulus gen beta_of c stimulus =
     initialize_parts gen beta_of (c\<lparr>stimuli := stimuli c @ [stimulus]\<rparr>) [Stimulus stimulus]"

subsection \<open>Loops that may raise\<close>

text \<open>
  A \<open>for\<close> loop whose body updates the state and may raise: the first error ends the loop.
\<close>

fun fold_err :: "('s \<Rightarrow> 'x \<Rightarrow> error + 's) \<Rightarrow> 's \<Rightarrow> 'x list \<Rightarrow> error + 's" where
  "fold_err f s [] = Inr s"
| "fold_err f s (x # xs) =
     (case f s x of Inl e \<Rightarrow> Inl e | Inr s' \<Rightarrow> fold_err f s' xs)"

subsection \<open>Winner computation: \<open>_project_into\<close>\<close>

text \<open>
  Lines 131 to 133: \<open>for part in sources: if (part, area) not in self.connections:
  self._initialize_connection(part, area)\<close>.
\<close>

definition ensure_connection ::
  "'r generator \<Rightarrow> (brain_part \<Rightarrow> brain_part \<Rightarrow> real) \<Rightarrow> area \<Rightarrow> 'r connectome \<Rightarrow>
   brain_part \<Rightarrow> 'r connectome" where
  "ensure_connection gen beta_of area c part =
     (if connections c (part, Area area) = None
      then initialize_connection gen beta_of part (Area area) c else c)"

definition ensure_connections ::
  "'r generator \<Rightarrow> (brain_part \<Rightarrow> brain_part \<Rightarrow> real) \<Rightarrow> 'r connectome \<Rightarrow> area \<Rightarrow>
   brain_part list \<Rightarrow> 'r connectome" where
  "ensure_connections gen beta_of c area sources =
     foldl (ensure_connection gen beta_of area) c sources"

text \<open>Vectors of length \<open>area.n\<close>; \<open>+=\<close> adds entry by entry.\<close>

definition vec_add :: "real list \<Rightarrow> real list \<Rightarrow> real list" where
  "vec_add xs ys = map2 (+) xs ys"

text \<open>\<open>synapses[winner, :]\<close>, a row of a matrix with \<open>ncols\<close> columns.\<close>

definition row :: "(nat \<Rightarrow> nat \<Rightarrow> real) \<Rightarrow> nat \<Rightarrow> nat \<Rightarrow> real list" where
  "row syn ncols i = map (syn i) [0..<ncols]"

text \<open>\<open>synapses.sum(axis=0)\<close>, the column sums of a matrix with \<open>nrows\<close> rows.\<close>

definition column_sums :: "(nat \<Rightarrow> nat \<Rightarrow> real) \<Rightarrow> nat \<Rightarrow> nat \<Rightarrow> real list" where
  "column_sums syn nrows ncols = map (\<lambda>j. sum_list (map (\<lambda>i. syn i j) [0..<nrows])) [0..<ncols]"

text \<open>
  The body of the loop over \<open>src_areas\<close>: \<open>prev_winner_inputs +=
  sum((area_connectome.synapses[winner, :] for winner in self.winners[source]))\<close>. A
  missing connection raises \<open>KeyError\<close>; a winner that is not a row of the matrix raises
  \<open>IndexError\<close>.
\<close>

definition add_area_input ::
  "'r connectome \<Rightarrow> area \<Rightarrow> real list \<Rightarrow> area \<Rightarrow> error + real list" where
  "add_area_input c area prev_winner_inputs src =
     (case connections c (Area src, Area area) of
        None \<Rightarrow> Inl KeyError
      | Some area_connectome \<Rightarrow>
          if list_ex (\<lambda>winner. area_n src \<le> winner) (winners c src) then Inl IndexError
          else Inr (foldl vec_add prev_winner_inputs
                      (map (row (synapses area_connectome) (area_n area)) (winners c src))))"

text \<open>
  One term of \<open>sum(self.connections[stim, area].synapses.sum(axis=0) for stim in
  src_stimuli)\<close>, added to the running total.
\<close>

definition add_stimulus_input ::
  "'r connectome \<Rightarrow> area \<Rightarrow> real list \<Rightarrow> stimulus \<Rightarrow> error + real list" where
  "add_stimulus_input c area prev_winner_inputs stim =
     (case connections c (Stimulus stim, Area area) of
        None \<Rightarrow> Inl KeyError
      | Some conn \<Rightarrow>
          Inr (vec_add prev_winner_inputs
                 (column_sums (synapses conn) (stim_n stim) (area_n area))))"

fun src_areas :: "brain_part list \<Rightarrow> area list" where
  "src_areas [] = []"
| "src_areas (Area a # sources) = a # src_areas sources"
| "src_areas (Stimulus s # sources) = src_areas sources"

fun src_stimuli :: "brain_part list \<Rightarrow> stimulus list" where
  "src_stimuli [] = []"
| "src_stimuli (Stimulus s # sources) = s # src_stimuli sources"
| "src_stimuli (Area a # sources) = src_stimuli sources"

text \<open>Lines 135 to 140: the total input of every neuron of \<open>area\<close>.\<close>

definition prev_winner_inputs ::
  "'r connectome \<Rightarrow> area \<Rightarrow> brain_part list \<Rightarrow> error + real list" where
  "prev_winner_inputs c area sources =
     (case fold_err (add_area_input c area) (replicate (area_n area) 0) (src_areas sources) of
        Inl e \<Rightarrow> Inl e
      | Inr inputs \<Rightarrow> fold_err (add_stimulus_input c area) inputs (src_stimuli sources))"

text \<open>
  \<open>np.argpartition(a, kth)\<close> for a Python integer \<open>kth\<close>: a negative \<open>kth\<close> counts from
  the end, and on a non-empty array a \<open>kth\<close> out of bounds raises \<open>ValueError\<close>.
\<close>

definition np_argpartition :: "argpartition \<Rightarrow> real list \<Rightarrow> int \<Rightarrow> error + nat list" where
  "np_argpartition ap a kth =
     (let n = int (length a); kth' = (if kth < 0 then kth + n else kth)
      in if a \<noteq> [] \<and> (kth' < 0 \<or> n \<le> kth') then Inl ValueError
         else Inr (ap a (nat kth')))"

text \<open>The slice \<open>xs[-k:]\<close>: the last \<open>k\<close> elements, and all of \<open>xs\<close> when \<open>k\<close> is 0.\<close>

definition last_k :: "nat \<Rightarrow> 'a list \<Rightarrow> 'a list" where
  "last_k k xs = (if k = 0 then xs else drop (length xs - k) xs)"

text \<open>Lines 135 to 141, on a connectome that holds every connection they read.\<close>

definition select_winners ::
  "argpartition \<Rightarrow> 'r connectome \<Rightarrow> area \<Rightarrow> brain_part list \<Rightarrow> error + nat list" where
  "select_winners ap c area sources =
     (case prev_winner_inputs c area sources of
        Inl e \<Rightarrow> Inl e
      | Inr inputs \<Rightarrow>
          (case np_argpartition ap inputs (int (area_n area) - int (area_k area)) of
             Inl e \<Rightarrow> Inl e
           | Inr order \<Rightarrow> Inr (last_k (area_k area) order)))"

definition project_into ::
  "'r generator \<Rightarrow> (brain_part \<Rightarrow> brain_part \<Rightarrow> real) \<Rightarrow> argpartition \<Rightarrow> 'r connectome \<Rightarrow>
   area \<Rightarrow> brain_part list \<Rightarrow> error + (nat list \<times> 'r connectome)" where
  "project_into gen beta_of ap c area sources =
     (let c' = ensure_connections gen beta_of c area sources
      in case select_winners ap c' area sources of
           Inl e \<Rightarrow> Inl e
         | Inr new_winners \<Rightarrow> Inr (new_winners, c'))"

subsection \<open>Plasticity: \<open>update_connectomes\<close>\<close>

text \<open>
  \<open>source_neurons\<close>: \<open>range(source.n) if isinstance(source, Stimulus) else
  self.winners[source]\<close>.
\<close>

fun source_neurons :: "'r connectome \<Rightarrow> brain_part \<Rightarrow> nat list" where
  "source_neurons c (Stimulus s) = [0..<stim_n s]"
| "source_neurons c (Area a) = winners c a"

text \<open>
  Line 109, \<open>connection.synapses[source_neurons, new_winners[area][:, None]] *= (1 +
  beta)\<close>: the two index arrays broadcast to every pair of a source neuron (row) and a
  new winner (column); the selected entries are read, multiplied and written back, once
  for each pair however often it is listed. When the broadcast is not empty, an index
  outside the matrix raises \<open>IndexError\<close>. The product is that of the real numbers: what
  is proved of a scaled weight holds of the float64 weight up to rounding.
\<close>

definition scale_entries ::
  "nat list \<Rightarrow> nat list \<Rightarrow> real \<Rightarrow> (nat \<Rightarrow> nat \<Rightarrow> real) \<Rightarrow> nat \<Rightarrow> nat \<Rightarrow> real" where
  "scale_entries rows cols b syn =
     (\<lambda>i j. if i \<in> set rows \<and> j \<in> set cols then syn i j * (1 + b) else syn i j)"

definition potentiate ::
  "area \<Rightarrow> nat list \<Rightarrow> 'r connectome \<Rightarrow> brain_part \<Rightarrow> error + 'r connectome" where
  "potentiate area new_winners c src =
     (case connections c (src, Area area) of
        None \<Rightarrow> Inl KeyError
      | Some connection \<Rightarrow>
          let neurons = source_neurons c src
          in if neurons \<noteq> [] \<and> new_winners \<noteq> [] \<and>
                (list_ex (\<lambda>i. part_n src \<le> i) neurons \<or>
                 list_ex (\<lambda>j. area_n area \<le> j) new_winners)
             then Inl IndexError
             else Inr (c\<lparr>connections := (connections c)((src, Area area) \<mapsto>
                         connection\<lparr>synapses :=
                           scale_entries neurons new_winners (beta connection)
                             (synapses connection)\<rparr>)\<rparr>))"

text \<open>
  \<open>for area in new_winners: for source in sources[area]: ...\<close>; \<open>sources\<close> is a
  \<open>defaultdict\<close>, so an area it does not hold has no source.
\<close>

definition update_area ::
  "(area, brain_part list) dict \<Rightarrow> 'r connectome \<Rightarrow> area \<times> nat list \<Rightarrow> error + 'r connectome" where
  "update_area sources c entry =
     fold_err (potentiate (fst entry) (snd entry)) c (dict_get sources (fst entry) [])"

definition update_connectomes ::
  "'r connectome \<Rightarrow> (area, nat list) dict \<Rightarrow> (area, brain_part list) dict \<Rightarrow>
   error + 'r connectome" where
  "update_connectomes c new_winners sources =
     (if plasticity_disabled c then Inr c
      else fold_err (update_area sources) c new_winners)"

subsection \<open>Commit: \<open>update_winners\<close>\<close>

text \<open>\<open>for area in sources.keys(): self.winners[area] = new_winners[area]\<close>.\<close>

definition set_winners ::
  "(area, nat list) dict \<Rightarrow> 'r connectome \<Rightarrow> area \<Rightarrow> error + 'r connectome" where
  "set_winners new_winners c area =
     (case map_of new_winners area of
        None \<Rightarrow> Inl KeyError
      | Some w \<Rightarrow> Inr (c\<lparr>winners := (winners c)(area := w)\<rparr>))"

definition update_winners ::
  "'r connectome \<Rightarrow> (area, nat list) dict \<Rightarrow> (area, brain_part list) dict \<Rightarrow>
   error + 'r connectome" where
  "update_winners c new_winners sources = fold_err (set_winners new_winners) c (map fst sources)"

subsection \<open>One round: \<open>fire\<close>\<close>

text \<open>
  Lines 149 to 154: \<open>sources_mapping[area].append(part)\<close> for every area of every item
  of the request, in order. The areas are keyed in the order of their first occurrence
  and a part is listed once for each occurrence of the area in its list.
\<close>

definition add_source ::
  "brain_part \<Rightarrow> (area, brain_part list) dict \<Rightarrow> area \<Rightarrow> (area, brain_part list) dict" where
  "add_source part sm area = AList.update area (dict_get sm area [] @ [part]) sm"

definition sources_mapping :: "mapping \<Rightarrow> (area, brain_part list) dict" where
  "sources_mapping request =
     foldl (\<lambda>sm entry. foldl (add_source (fst entry)) sm (snd entry)) [] request"

text \<open>
  Lines 159 to 161: \<open>new_winners[area] = self._project_into(area,
  sources_mapping[area])\<close> for every area that receives input. The state of the loop is
  the dictionary \<open>new_winners\<close> and the connectome.
\<close>

definition project_area ::
  "'r generator \<Rightarrow> (brain_part \<Rightarrow> brain_part \<Rightarrow> real) \<Rightarrow> argpartition \<Rightarrow>
   (area, nat list) dict \<times> 'r connectome \<Rightarrow> area \<times> brain_part list \<Rightarrow>
   error + ((area, nat list) dict \<times> 'r connectome)" where
  "project_area gen beta_of ap st entry =
     (case project_into gen beta_of ap (snd st) (fst entry) (snd entry) of
        Inl e \<Rightarrow> Inl e
      | Inr (w, c') \<Rightarrow> Inr (AList.update (fst entry) w (fst st), c'))"

definition fire ::
  "'r generator \<Rightarrow> (brain_part \<Rightarrow> brain_part \<Rightarrow> real) \<Rightarrow> argpartition \<Rightarrow> 'r connectome \<Rightarrow>
   mapping \<Rightarrow> error + 'r connectome" where
  "fire gen beta_of ap c request =
     (let sm = sources_mapping request
      in case fold_err (project_area gen beta_of ap) ([], c) sm of
           Inl e \<Rightarrow> Inl e
         | Inr (new_winners, c1) \<Rightarrow>
             (case update_connectomes c1 new_winners sm of
                Inl e \<Rightarrow> Inl e
              | Inr c2 \<Rightarrow> update_winners c2 new_winners sm))"

text \<open>
  A stable ordering of the indices by value: one function that meets the contract of
  \<open>numpy.argpartition\<close>, used to run the model on concrete inputs.
\<close>

definition argsort :: argpartition where
  "argsort a kth = sort_key (\<lambda>i. a ! i) [0..<length a]"

text \<open>
  What the theorems below assume of \<open>numpy.argpartition\<close> where they need it: for an
  index \<open>kth\<close> within bounds, the result lists every index of the array once.
\<close>

definition index_permutation :: "argpartition \<Rightarrow> bool" where
  "index_permutation ap \<longleftrightarrow>
     (\<forall>a kth. a = [] \<or> kth < length a \<longrightarrow>
        distinct (ap a kth) \<and> set (ap a kth) = {0..<length a})"

section \<open>Notions used to state the properties\<close>

text \<open>
  The connectome once the missing connections of a round are created: the lazy creations
  of lines 131 to 133 for every area of the round and its sources, in the order of the
  round. The winners and the connections that exist are unchanged.
\<close>

definition ensure_all ::
  "'r generator \<Rightarrow> (brain_part \<Rightarrow> brain_part \<Rightarrow> real) \<Rightarrow> 'r connectome \<Rightarrow>
   (area, brain_part list) dict \<Rightarrow> 'r connectome" where
  "ensure_all gen beta_of c sm =
     foldl (\<lambda>c entry. ensure_connections gen beta_of c (fst entry) (snd entry)) c sm"

text \<open>
  The connection under \<open>key\<close> after the plasticity steps of one area \<open>a\<close> with new winners
  \<open>nws\<close> and sources \<open>srcs\<close>: scaled once for each occurrence of its source in \<open>srcs\<close>.
\<close>

definition potentiated_area ::
  "'r connectome \<Rightarrow> area \<Rightarrow> nat list \<Rightarrow> brain_part list \<Rightarrow> brain_part \<times> brain_part \<Rightarrow>
   connection \<Rightarrow> connection" where
  "potentiated_area c a nws srcs key conn =
     (if snd key = Area a
      then conn\<lparr>synapses := (scale_entries (source_neurons c (fst key)) nws (beta conn) ^^
                count_list srcs (fst key)) (synapses conn)\<rparr>
      else conn)"

text \<open>The connection under \<open>key\<close> after the plasticity step of a whole round.\<close>

definition potentiated ::
  "'r connectome \<Rightarrow> (area, nat list) dict \<Rightarrow> (area, brain_part list) dict \<Rightarrow>
   brain_part \<times> brain_part \<Rightarrow> connection \<Rightarrow> connection" where
  "potentiated c nw sm key conn =
     (case snd key of
        Stimulus s \<Rightarrow> conn
      | Area a \<Rightarrow>
          (case map_of nw a of
             None \<Rightarrow> conn
           | Some nws \<Rightarrow> potentiated_area c a nws (dict_get sm a []) key conn))"

text \<open>
  The sources of area \<open>a\<close> in a request, as the loop of lines 151 to 154 lists them: each
  part of the request, in order, once for each occurrence of \<open>a\<close> in its list of areas.
\<close>

definition sources_of :: "mapping \<Rightarrow> area \<Rightarrow> brain_part list" where
  "sources_of request a =
     concat (map (\<lambda>entry. replicate (count_list (snd entry) a) (fst entry)) request)"

text \<open>The areas that appear as destinations in a request.\<close>

definition destinations :: "mapping \<Rightarrow> area list" where
  "destinations request = concat (map snd request)"

text \<open>
  The connection from \<open>src\<close> into area \<open>a\<close> after a round, from the one before the
  plasticity step: every entry from an active neuron of the source to a new winner of the
  area is multiplied by \<open>1 + beta\<close> once for each occurrence of \<open>src\<close> among the sources of
  \<open>a\<close>, unless plasticity is disabled.
\<close>

definition round_connection ::
  "bool \<Rightarrow> nat list \<Rightarrow> nat list \<Rightarrow> nat \<Rightarrow> connection \<Rightarrow> connection" where
  "round_connection disabled active new_winners m conn =
     conn\<lparr>synapses := (\<lambda>i j.
        if \<not> disabled \<and> i \<in> set active \<and> j \<in> set new_winners
        then synapses conn i j * (1 + beta conn) ^ m else synapses conn i j)\<rparr>"

text \<open>
  The input that one source sends to neuron \<open>j\<close> of area \<open>a\<close>: the sum, over the active
  neurons of the source, of the weights into \<open>j\<close>.
\<close>

definition part_input :: "'r connectome \<Rightarrow> area \<Rightarrow> brain_part \<Rightarrow> nat \<Rightarrow> real" where
  "part_input c a src j =
     (case connections c (src, Area a) of
        None \<Rightarrow> 0
      | Some conn \<Rightarrow> sum_list (map (\<lambda>i. synapses conn i j) (source_neurons c src)))"

text \<open>Every connection that the plasticity step of a round reads.\<close>

definition sources_connected :: "(area, brain_part list) dict \<Rightarrow> 'r connectome \<Rightarrow> bool" where
  "sources_connected sm c \<longleftrightarrow>
     (\<forall>a src. src \<in> set (dict_get sm a []) \<longrightarrow> (\<exists>conn. connections c (src, Area a) = Some conn))"

section \<open>Concrete instances\<close>

text \<open>
  A generator of fully connected matrices (every weight 1, as with \<open>p = 1\<close>), a constant
  plasticity rate, and two small parts, used to run the model.
\<close>

definition ones_gen :: "unit generator" where
  "ones_gen = (\<lambda>r n_dest n_src prob. (\<lambda>i j. 1, r))"

definition tenth_beta :: "brain_part \<Rightarrow> brain_part \<Rightarrow> real" where
  "tenth_beta = (\<lambda>src dst. 1 / 10)"

definition stim0 :: stimulus where
  "stim0 = MkStimulus 0 2"

definition area1 :: area where
  "area1 = MkArea 1 3 1"

text \<open>The state after the first round on the empty connectome, and a second round from it.\<close>

definition after_first_round :: "unit connectome" where
  "after_first_round =
     projr (fire ones_gen tenth_beta argsort (empty_connectome 1 ()) [(Stimulus stim0, [area1])])"

definition second_request :: mapping where
  "second_request = [(Stimulus stim0, [area1]), (Area area1, [area1])]"

definition after_second_round :: "unit connectome" where
  "after_second_round =
     projr (fire ones_gen tenth_beta argsort after_first_round second_request)"

definition first_round_connection :: connection where
  "first_round_connection =
     \<lparr>source = Stimulus stim0, dest = Area area1,
      synapses = (\<lambda>i j. if (i = 0 \<or> i = 1) \<and> j = 2 then 11 / 10 else 1), beta = 1 / 10\<rparr>"

definition after_third_round :: "unit connectome" where
  "after_third_round =
     projr (fire ones_gen tenth_beta argsort after_second_round second_request)"

definition second_round_connection :: connection where
  "second_round_connection = the (connections after_second_round (Area area1, Area area1))"

definition twice_request :: mapping where
  "twice_request = [(Stimulus stim0, [area1, area1])]"

section \<open>Lemmas\<close>

lemmas scheduler_defs =
  fire_many_rounds_def first_layer_def any_Assembly_def next_layer_def prev_layer_def
  add_parent_def dict_get_def round_mapping_def dict_merge_def stimuli_mappings_def
  assembly_mapping_def

subsection \<open>Loops that may raise\<close>

lemma fold_err_append:
  "fold_err f s (xs @ ys) = (case fold_err f s xs of Inl e \<Rightarrow> Inl e | Inr s' \<Rightarrow> fold_err f s' ys)"
  by (induction xs arbitrary: s) (auto split: sum.splits)

lemma fold_err_invariant:
  assumes "fold_err f s xs = Inr s'" and "P s"
    and "\<And>t x t'. P t \<Longrightarrow> x \<in> set xs \<Longrightarrow> f t x = Inr t' \<Longrightarrow> P t'"
  shows "P s'"
  using assms
proof (induction xs arbitrary: s)
  case Nil
  then show ?case by simp
next
  case (Cons x xs)
  from Cons.prems(1) obtain t where t: "f s x = Inr t" "fold_err f t xs = Inr s'"
    by (auto split: sum.splits)
  have x: "x \<in> set (x # xs)" by simp
  show ?case
  proof (rule Cons.IH [OF t(2)])
    show "P t" by (rule Cons.prems(3) [OF Cons.prems(2) x t(1)])
  next
    fix u y u' assume "P u" "y \<in> set xs" "f u y = Inr u'"
    then show "P u'" using Cons.prems(3) [of u y u'] by simp
  qed
qed

lemma fold_err_never:
  assumes "P s"
    and "\<And>t x. P t \<Longrightarrow> x \<in> set xs \<Longrightarrow> f t x \<noteq> Inl e"
    and "\<And>t x t'. P t \<Longrightarrow> x \<in> set xs \<Longrightarrow> f t x = Inr t' \<Longrightarrow> P t'"
  shows "fold_err f s xs \<noteq> Inl e"
  using assms
proof (induction xs arbitrary: s)
  case Nil
  then show ?case by simp
next
  case (Cons x xs)
  have x: "x \<in> set (x # xs)" by simp
  show ?case
  proof (cases "f s x")
    case (Inl e')
    moreover have "f s x \<noteq> Inl e" by (rule Cons.prems(2) [OF Cons.prems(1) x])
    ultimately show ?thesis by auto
  next
    case (Inr t)
    have "fold_err f t xs \<noteq> Inl e"
    proof (rule Cons.IH)
      show "P t" by (rule Cons.prems(3) [OF Cons.prems(1) x Inr])
    next
      fix u y assume "P u" "y \<in> set xs"
      then show "f u y \<noteq> Inl e" using Cons.prems(2) [of u y] by simp
    next
      fix u y u' assume "P u" "y \<in> set xs" "f u y = Inr u'"
      then show "P u'" using Cons.prems(3) [of u y u'] by simp
    qed
    then show ?thesis using Inr by simp
  qed
qed

subsection \<open>Lazy creation of connections\<close>

lemma initialize_connection_fields [simp]:
  "winners (initialize_connection gen beta_of part area c) = winners c"
  "plasticity_disabled (initialize_connection gen beta_of part area c) = plasticity_disabled c"
  "areas (initialize_connection gen beta_of part area c) = areas c"
  "stimuli (initialize_connection gen beta_of part area c) = stimuli c"
  "p (initialize_connection gen beta_of part area c) = p c"
  by (simp_all add: initialize_connection_def split: prod.splits)

lemma initialize_connection_other:
  "key \<noteq> (part, area) \<Longrightarrow>
   connections (initialize_connection gen beta_of part area c) key = connections c key"
  by (simp add: initialize_connection_def split: prod.splits)

lemma initialize_connection_key:
  "connections (initialize_connection gen beta_of part area c) (part, area) \<noteq> None"
  by (simp add: initialize_connection_def split: prod.splits)

lemma initialize_connection_dest:
  "connections (initialize_connection gen beta_of part area c) (part, area) = Some conn \<Longrightarrow>
   source conn = part \<and> dest conn = area \<and> beta conn = beta_of part area"
  by (auto simp add: initialize_connection_def split: prod.splits)

lemma ensure_connection_fields [simp]:
  "winners (ensure_connection gen beta_of area c part) = winners c"
  "plasticity_disabled (ensure_connection gen beta_of area c part) = plasticity_disabled c"
  "areas (ensure_connection gen beta_of area c part) = areas c"
  "stimuli (ensure_connection gen beta_of area c part) = stimuli c"
  by (simp_all add: ensure_connection_def)

lemma ensure_connection_keeps:
  "connections c key = Some conn \<Longrightarrow>
   connections (ensure_connection gen beta_of area c part) key = Some conn"
  by (cases "key = (part, Area area)")
     (auto simp: ensure_connection_def initialize_connection_other)

lemma ensure_connection_other:
  "key \<noteq> (part, Area area) \<Longrightarrow>
   connections (ensure_connection gen beta_of area c part) key = connections c key"
  by (simp add: ensure_connection_def initialize_connection_other)

lemma ensure_connection_key:
  "connections (ensure_connection gen beta_of area c part) (part, Area area) \<noteq> None"
  using initialize_connection_key [of gen beta_of part "Area area" c]
  by (auto simp: ensure_connection_def)

lemma ensure_connections_fields [simp]:
  "winners (ensure_connections gen beta_of c area sources) = winners c"
  "plasticity_disabled (ensure_connections gen beta_of c area sources) = plasticity_disabled c"
  "areas (ensure_connections gen beta_of c area sources) = areas c"
  "stimuli (ensure_connections gen beta_of c area sources) = stimuli c"
  unfolding ensure_connections_def
  by (induction sources arbitrary: c) simp_all

lemma ensure_connections_keeps:
  "connections c key = Some conn \<Longrightarrow>
   connections (ensure_connections gen beta_of c area sources) key = Some conn"
  unfolding ensure_connections_def
  by (induction sources arbitrary: c) (simp_all add: ensure_connection_keeps)

lemma ensure_connections_other:
  "fst key \<notin> set sources \<or> snd key \<noteq> Area area \<Longrightarrow>
   connections (ensure_connections gen beta_of c area sources) key = connections c key"
  unfolding ensure_connections_def
proof (induction sources arbitrary: c)
  case Nil
  then show ?case by simp
next
  case (Cons s sources)
  from Cons.prems have ne: "key \<noteq> (s, Area area)" by auto
  from Cons.prems have "fst key \<notin> set sources \<or> snd key \<noteq> Area area" by auto
  then have "connections (foldl (ensure_connection gen beta_of area)
      (ensure_connection gen beta_of area c s) sources) key
    = connections (ensure_connection gen beta_of area c s) key"
    by (rule Cons.IH)
  also have "\<dots> = connections c key"
    using ne by (rule ensure_connection_other)
  finally show ?case by simp
qed

lemma ensure_connections_key:
  "part \<in> set sources \<Longrightarrow>
   connections (ensure_connections gen beta_of c area sources) (part, Area area) \<noteq> None"
  unfolding ensure_connections_def
proof (induction sources arbitrary: c)
  case Nil
  then show ?case by simp
next
  case (Cons s sources)
  show ?case
  proof (cases "part \<in> set sources")
    case True
    then show ?thesis using Cons.IH by simp
  next
    case False
    with Cons.prems have "part = s" by simp
    then obtain conn where
      "connections (ensure_connection gen beta_of area c s) (part, Area area) = Some conn"
      using ensure_connection_key [of gen beta_of area c s] by auto
    then have "connections (ensure_connections gen beta_of
        (ensure_connection gen beta_of area c s) area sources) (part, Area area) = Some conn"
      by (rule ensure_connections_keeps)
    then show ?thesis by (simp add: ensure_connections_def)
  qed
qed

subsection \<open>Registration\<close>

lemma initialize_connection_dom:
  "connections c key = Some conn \<Longrightarrow>
   \<exists>conn'. connections (initialize_connection gen beta_of part area c) key = Some conn'"
  by (simp add: initialize_connection_def split: prod.splits)

lemma initialize_pair_dom:
  "connections c key = Some conn \<Longrightarrow>
   \<exists>conn'. connections (initialize_pair gen beta_of part c other) key = Some conn'"
  by (simp add: initialize_pair_def Let_def initialize_connection_def split: prod.splits)

lemma initialize_pair_forward:
  "\<exists>conn. connections (initialize_pair gen beta_of part c other) (part, other) = Some conn
     \<and> dest conn = other"
  by (auto simp: initialize_pair_def Let_def initialize_connection_def split: prod.splits)

lemma foldl_initialize_pair_dom:
  "connections c key = Some conn \<Longrightarrow>
   \<exists>conn'. connections (foldl (initialize_pair gen beta_of part) c others) key = Some conn'"
proof (induction others arbitrary: c conn)
  case Nil
  then show ?case by simp
next
  case (Cons other others)
  from initialize_pair_dom [OF Cons.prems] obtain conn' where
    "connections (initialize_pair gen beta_of part c other) key = Some conn'" by blast
  from Cons.IH [OF this] show ?case by simp
qed

lemma initialize_pair_dest:
  "\<forall>conn. connections c key = Some conn \<longrightarrow> dest conn = snd key \<Longrightarrow>
   connections (initialize_pair gen beta_of part c other) key = Some conn \<Longrightarrow>
   dest conn = snd key"
  by (auto simp: initialize_pair_def Let_def initialize_connection_def
      split: prod.splits if_splits)

lemma foldl_initialize_pair_forward:
  "other \<in> set others \<Longrightarrow>
   \<exists>conn. connections (foldl (initialize_pair gen beta_of part) c others) (part, other)
      = Some conn"
proof (induction others arbitrary: c)
  case Nil
  then show ?case by simp
next
  case (Cons o' others)
  show ?case
  proof (cases "other \<in> set others")
    case True
    then show ?thesis using Cons.IH by simp
  next
    case False
    with Cons.prems have "o' = other" by simp
    then obtain conn where
      "connections (initialize_pair gen beta_of part c o') (part, other) = Some conn"
      using initialize_pair_forward [of gen beta_of part c other] by auto
    from foldl_initialize_pair_dom [OF this] show ?thesis by simp
  qed
qed

subsection \<open>Winner computation reads the winners and the connections into the area\<close>

lemma fold_err_cong:
  "(\<And>s x. x \<in> set xs \<Longrightarrow> f s x = g s x) \<Longrightarrow> fold_err f s xs = fold_err g s xs"
  by (induction xs arbitrary: s) (auto split: sum.splits)

lemma set_src_areas: "set (src_areas sources) = {a. Area a \<in> set sources}"
  by (induction sources rule: src_areas.induct) auto

lemma set_src_stimuli: "set (src_stimuli sources) = {s. Stimulus s \<in> set sources}"
  by (induction sources rule: src_stimuli.induct) auto

lemma select_winners_cong:
  assumes "winners c = winners c'"
    and "\<And>src. src \<in> set sources \<Longrightarrow> connections c (src, Area area) = connections c' (src, Area area)"
  shows "select_winners ap c area sources = select_winners ap c' area sources"
proof -
  have "fold_err (add_area_input c area) v (src_areas sources)
      = fold_err (add_area_input c' area) v (src_areas sources)" for v
    by (rule fold_err_cong) (simp add: add_area_input_def assms set_src_areas split: option.splits)
  moreover have "fold_err (add_stimulus_input c area) v (src_stimuli sources)
      = fold_err (add_stimulus_input c' area) v (src_stimuli sources)" for v
    by (rule fold_err_cong) (simp add: add_stimulus_input_def assms set_src_stimuli split: option.splits)
  ultimately have "prev_winner_inputs c area sources = prev_winner_inputs c' area sources"
    by (simp add: prev_winner_inputs_def split: sum.splits)
  then show ?thesis by (simp add: select_winners_def)
qed

subsection \<open>The connectome after the lazy creations of one round\<close>

lemma ensure_all_Cons:
  "ensure_all gen beta_of c (entry # sm) =
   ensure_all gen beta_of (ensure_connections gen beta_of c (fst entry) (snd entry)) sm"
  by (simp add: ensure_all_def)

lemma ensure_all_fields [simp]:
  "winners (ensure_all gen beta_of c sm) = winners c"
  "plasticity_disabled (ensure_all gen beta_of c sm) = plasticity_disabled c"
  "areas (ensure_all gen beta_of c sm) = areas c"
  "stimuli (ensure_all gen beta_of c sm) = stimuli c"
  unfolding ensure_all_def
  by (induction sm arbitrary: c) simp_all

lemma ensure_all_keeps:
  "connections c key = Some conn \<Longrightarrow> connections (ensure_all gen beta_of c sm) key = Some conn"
  unfolding ensure_all_def
  by (induction sm arbitrary: c) (simp_all add: ensure_connections_keeps)

lemma ensure_all_other:
  assumes "\<And>a srcs. (a, srcs) \<in> set sm \<Longrightarrow> fst key \<in> set srcs \<Longrightarrow> snd key \<noteq> Area a"
  shows "connections (ensure_all gen beta_of c sm) key = connections c key"
  using assms
proof (induction sm arbitrary: c)
  case Nil
  then show ?case by (simp add: ensure_all_def)
next
  case (Cons entry sm)
  have "fst key \<notin> set (snd entry) \<or> snd key \<noteq> Area (fst entry)"
    using Cons.prems [of "fst entry" "snd entry"] by auto
  then have "connections (ensure_connections gen beta_of c (fst entry) (snd entry)) key
      = connections c key"
    by (rule ensure_connections_other)
  moreover have "connections (ensure_all gen beta_of
        (ensure_connections gen beta_of c (fst entry) (snd entry)) sm) key
      = connections (ensure_connections gen beta_of c (fst entry) (snd entry)) key"
  proof (rule Cons.IH)
    fix a srcs assume "(a, srcs) \<in> set sm" "fst key \<in> set srcs"
    then show "snd key \<noteq> Area a" using Cons.prems [of a srcs] by simp
  qed
  ultimately show ?case by (simp add: ensure_all_Cons)
qed

lemma ensure_all_key:
  assumes "(a, srcs) \<in> set sm" and "src \<in> set srcs"
  shows "\<exists>conn. connections (ensure_all gen beta_of c sm) (src, Area a) = Some conn"
  using assms(1)
proof (induction sm arbitrary: c)
  case Nil
  then show ?case by simp
next
  case (Cons entry sm)
  show ?case
  proof (cases "(a, srcs) \<in> set sm")
    case True
    then show ?thesis using Cons.IH by (simp add: ensure_all_Cons)
  next
    case False
    with Cons.prems have "entry = (a, srcs)" by simp
    then obtain conn where
      "connections (ensure_connections gen beta_of c (fst entry) (snd entry)) (src, Area a)
        = Some conn"
      using ensure_connections_key [OF assms(2), of gen beta_of c a] by auto
    then show ?thesis by (simp add: ensure_all_Cons ensure_all_keeps)
  qed
qed

subsection \<open>The loop that computes the new winners\<close>

lemma project_area_step:
  assumes "project_area gen beta_of ap (nw0, c) (a, srcs) = Inr (nw1, c1)"
  shows "c1 = ensure_connections gen beta_of c a srcs"
    and "\<exists>w. select_winners ap c1 a srcs = Inr w \<and> nw1 = AList.update a w nw0"
  using assms
  by (auto simp: project_area_def project_into_def Let_def split: sum.splits)

lemma select_winners_ensure_all:
  assumes "\<And>src. src \<in> set srcs \<Longrightarrow> \<exists>conn. connections c (src, Area a) = Some conn"
  shows "select_winners ap (ensure_all gen beta_of c sm) a srcs = select_winners ap c a srcs"
proof (rule select_winners_cong)
  show "winners (ensure_all gen beta_of c sm) = winners c" by simp
next
  fix src assume "src \<in> set srcs"
  then obtain conn where "connections c (src, Area a) = Some conn"
    using assms by blast
  then show "connections (ensure_all gen beta_of c sm) (src, Area a) = connections c (src, Area a)"
    by (simp add: ensure_all_keeps)
qed

lemma project_loop:
  assumes "fold_err (project_area gen beta_of ap) (nw0, c) sm = Inr (nw, c1)"
    and "distinct (map fst sm)"
  shows "c1 = ensure_all gen beta_of c sm
     \<and> fst ` set nw = fst ` set nw0 \<union> fst ` set sm
     \<and> (distinct (map fst nw0) \<longrightarrow> distinct (map fst nw))
     \<and> (\<forall>a. a \<notin> fst ` set sm \<longrightarrow> map_of nw a = map_of nw0 a)
     \<and> (\<forall>a srcs. (a, srcs) \<in> set sm \<longrightarrow>
           (\<exists>w. map_of nw a = Some w \<and> select_winners ap c1 a srcs = Inr w))"
  using assms
proof (induction sm arbitrary: nw0 c)
  case Nil
  then show ?case by (simp add: ensure_all_def)
next
  case (Cons entry sm)
  obtain a srcs where entry: "entry = (a, srcs)" by (cases entry)
  from Cons.prems(1) obtain nw1 ca where
    step: "project_area gen beta_of ap (nw0, c) (a, srcs) = Inr (nw1, ca)"
    and rest: "fold_err (project_area gen beta_of ap) (nw1, ca) sm = Inr (nw, c1)"
    by (auto simp: entry split: sum.splits)
  from project_area_step [OF step] obtain w where
    ca: "ca = ensure_connections gen beta_of c a srcs"
    and w: "select_winners ap ca a srcs = Inr w" and nw1: "nw1 = AList.update a w nw0"
    by blast
  from Cons.prems(2) have dist: "distinct (map fst sm)" and fresh: "a \<notin> fst ` set sm"
    by (auto simp: entry)
  note IH = Cons.IH [OF rest dist]
  from IH have c1: "c1 = ensure_all gen beta_of ca sm" by blast
  have "c1 = ensure_all gen beta_of c (entry # sm)"
    by (simp add: c1 ca ensure_all_Cons entry)
  moreover have "fst ` set nw = fst ` set nw0 \<union> fst ` set (entry # sm)"
    using IH by (auto simp: nw1 dom_update entry)
  moreover have "distinct (map fst nw0) \<longrightarrow> distinct (map fst nw)"
    using IH by (simp add: nw1 distinct_update)
  moreover have "\<forall>b. b \<notin> fst ` set (entry # sm) \<longrightarrow> map_of nw b = map_of nw0 b"
    using IH by (auto simp: nw1 update_conv' entry)
  moreover have "\<forall>b srcs'. (b, srcs') \<in> set (entry # sm) \<longrightarrow>
      (\<exists>w. map_of nw b = Some w \<and> select_winners ap c1 b srcs' = Inr w)"
  proof (intro allI impI)
    fix b srcs' assume "(b, srcs') \<in> set (entry # sm)"
    then consider "b = a" "srcs' = srcs" | "(b, srcs') \<in> set sm"
      by (auto simp: entry)
    then show "\<exists>w. map_of nw b = Some w \<and> select_winners ap c1 b srcs' = Inr w"
    proof cases
      case 1
      have "map_of nw a = map_of nw1 a" using IH fresh by blast
      then have "map_of nw a = Some w" by (simp add: nw1 update_conv')
      moreover have "select_winners ap c1 a srcs = select_winners ap ca a srcs"
        unfolding c1
      proof (rule select_winners_ensure_all)
        fix src assume "src \<in> set srcs"
        then show "\<exists>conn. connections ca (src, Area a) = Some conn"
          using ensure_connections_key [of src srcs gen beta_of c a] by (auto simp: ca)
      qed
      ultimately show ?thesis using w 1 by simp
    next
      case 2
      then show ?thesis using IH by blast
    qed
  qed
  ultimately show ?case by blast
qed

subsection \<open>The plasticity loops\<close>

lemma scale_entries_funpow:
  "(scale_entries rows cols b ^^ m) syn =
   (\<lambda>i j. if i \<in> set rows \<and> j \<in> set cols then syn i j * (1 + b) ^ m else syn i j)"
proof (induction m)
  case 0
  then show ?case by (simp add: fun_eq_iff)
next
  case (Suc m)
  then show ?case by (simp add: scale_entries_def fun_eq_iff)
qed

lemma source_neurons_cong: "winners c = winners c' \<Longrightarrow> source_neurons c src = source_neurons c' src"
  by (cases src) simp_all

lemma potentiated_area_cong:
  "winners c = winners c' \<Longrightarrow> potentiated_area c a nws srcs = potentiated_area c' a nws srcs"
  by (simp add: potentiated_area_def fun_eq_iff source_neurons_cong [of c c'])

lemma potentiated_area_Nil [simp]: "potentiated_area c a nws [] key conn = conn"
  by (simp add: potentiated_area_def)

lemma potentiate_step:
  assumes "potentiate a nws c src = Inr c'"
  shows "\<exists>conn. connections c (src, Area a) = Some conn \<and>
     c' = c\<lparr>connections := (connections c)((src, Area a) \<mapsto>
        conn\<lparr>synapses := scale_entries (source_neurons c src) nws (beta conn) (synapses conn)\<rparr>)\<rparr>"
  using assms
  by (auto simp: potentiate_def Let_def split: option.splits if_splits)

lemma potentiate_loop:
  assumes "fold_err (potentiate a nws) c srcs = Inr c'"
  shows "winners c' = winners c \<and> plasticity_disabled c' = plasticity_disabled c
     \<and> areas c' = areas c \<and> stimuli c' = stimuli c \<and> rng c' = rng c \<and> p c' = p c
     \<and> connections c' key = map_option (potentiated_area c a nws srcs key) (connections c key)"
  using assms
proof (induction srcs arbitrary: c)
  case Nil
  have "potentiated_area c a nws [] key = (\<lambda>conn. conn)" by (simp add: fun_eq_iff)
  with Nil show ?case by (simp add: option.map_ident)
next
  case (Cons src srcs)
  from Cons.prems obtain c1 where
    step: "potentiate a nws c src = Inr c1"
    and rest: "fold_err (potentiate a nws) c1 srcs = Inr c'"
    by (auto split: sum.splits)
  from potentiate_step [OF step] obtain conn where
    conn: "connections c (src, Area a) = Some conn"
    and c1: "c1 = c\<lparr>connections := (connections c)((src, Area a) \<mapsto>
        conn\<lparr>synapses := scale_entries (source_neurons c src) nws (beta conn) (synapses conn)\<rparr>)\<rparr>"
    by blast
  have w1: "winners c1 = winners c" by (simp add: c1)
  note IH = Cons.IH [OF rest]
  have "connections c' key =
      map_option (potentiated_area c a nws (src # srcs) key) (connections c key)"
  proof -
    have "connections c' key = map_option (potentiated_area c1 a nws srcs key) (connections c1 key)"
      using IH by blast
    then have eq: "connections c' key = map_option (potentiated_area c a nws srcs key) (connections c1 key)"
      by (simp only: potentiated_area_cong [OF w1])
    show ?thesis
    proof (cases "key = (src, Area a)")
      case True
      then show ?thesis
        using conn eq by (simp add: c1 potentiated_area_def funpow_swap1)
    next
      case False
      then have "connections c1 key = connections c key" by (simp add: c1)
      moreover have "potentiated_area c a nws (src # srcs) key = potentiated_area c a nws srcs key"
        using False by (cases key) (auto simp: potentiated_area_def fun_eq_iff)
      ultimately show ?thesis by (simp add: eq)
    qed
  qed
  then show ?case using IH by (simp add: c1)
qed

lemma potentiated_cong:
  "winners c = winners c' \<Longrightarrow> potentiated c nw sm = potentiated c' nw sm"
  by (auto simp: potentiated_def fun_eq_iff potentiated_area_cong [of c c']
      split: brain_part.splits option.splits)

lemma update_loop:
  assumes "fold_err (update_area sm) c nw = Inr c'" and "distinct (map fst nw)"
  shows "winners c' = winners c \<and> plasticity_disabled c' = plasticity_disabled c
     \<and> areas c' = areas c \<and> stimuli c' = stimuli c \<and> rng c' = rng c \<and> p c' = p c
     \<and> connections c' key = map_option (potentiated c nw sm key) (connections c key)"
  using assms
proof (induction nw arbitrary: c)
  case Nil
  have "potentiated c [] sm key = (\<lambda>conn. conn)"
    by (simp add: potentiated_def fun_eq_iff split: brain_part.splits)
  with Nil show ?case by (simp add: option.map_ident)
next
  case (Cons entry nw)
  obtain a nws where entry: "entry = (a, nws)" by (cases entry)
  from Cons.prems(1) obtain c1 where
    step0: "update_area sm c entry = Inr c1"
    and rest: "fold_err (update_area sm) c1 nw = Inr c'"
    by (auto split: sum.splits)
  from step0 have step: "fold_err (potentiate a nws) c (dict_get sm a []) = Inr c1"
    by (simp add: entry update_area_def)
  note S = potentiate_loop [OF step]
  from Cons.prems(2) have dist: "distinct (map fst nw)" and fresh: "map_of nw a = None"
    by (auto simp: entry map_of_eq_None_iff)
  note IH = Cons.IH [OF rest dist]
  have w1: "winners c1 = winners c" using S by simp
  have "connections c' key =
      map_option (potentiated c (entry # nw) sm key) (connections c key)"
  proof -
    have "connections c' key = map_option (potentiated c1 nw sm key) (connections c1 key)"
      using IH by blast
    moreover have "connections c1 key
        = map_option (potentiated_area c a nws (dict_get sm a []) key) (connections c key)"
      using S by blast
    ultimately have eq: "connections c' key = map_option (potentiated c nw sm key)
        (map_option (potentiated_area c a nws (dict_get sm a []) key) (connections c key))"
      by (simp only: potentiated_cong [OF w1])
    show ?thesis
    proof (cases "snd key = Area a")
      case True
      then have "potentiated c nw sm key = (\<lambda>conn. conn)"
        using fresh by (simp add: potentiated_def fun_eq_iff)
      moreover have "potentiated c (entry # nw) sm key
          = potentiated_area c a nws (dict_get sm a []) key"
        using True by (simp add: potentiated_def fun_eq_iff entry)
      ultimately show ?thesis by (simp add: eq option.map_ident)
    next
      case False
      then have "potentiated_area c a nws (dict_get sm a []) key = (\<lambda>conn. conn)"
        by (simp add: potentiated_area_def fun_eq_iff)
      moreover have "potentiated c (entry # nw) sm key = potentiated c nw sm key"
        using False by (auto simp: potentiated_def fun_eq_iff entry split: brain_part.splits)
      ultimately show ?thesis by (simp add: eq option.map_ident)
    qed
  qed
  then show ?case using IH S by simp
qed

subsection \<open>The commit of the new winners\<close>

lemma update_winners_loop:
  assumes "fold_err (set_winners nw) c as = Inr c'"
  shows "connections c' = connections c \<and> plasticity_disabled c' = plasticity_disabled c
     \<and> areas c' = areas c \<and> stimuli c' = stimuli c \<and> rng c' = rng c \<and> p c' = p c
     \<and> (\<forall>a. winners c' a = (if a \<in> set as then the (map_of nw a) else winners c a))
     \<and> (\<forall>a\<in>set as. map_of nw a \<noteq> None)"
  using assms
proof (induction as arbitrary: c)
  case Nil
  then show ?case by simp
next
  case (Cons a as)
  from Cons.prems obtain c1 where step: "set_winners nw c a = Inr c1"
    and rest: "fold_err (set_winners nw) c1 as = Inr c'"
    by (auto split: sum.splits)
  from step obtain w where w: "map_of nw a = Some w"
    and c1: "c1 = c\<lparr>winners := (winners c)(a := w)\<rparr>"
    by (auto simp: set_winners_def split: option.splits)
  from Cons.IH [OF rest] w show ?case by (auto simp: c1)
qed

subsection \<open>The sources of the areas of a request\<close>

lemma dict_get_add_source:
  "dict_get (add_source part sm a) b [] =
   (if b = a then dict_get sm a [] @ [part] else dict_get sm b [])"
  by (simp add: add_source_def dict_get_def update_conv')

lemma keys_add_source: "fst ` set (add_source part sm a) = insert a (fst ` set sm)"
  by (simp add: add_source_def dom_update)

lemma distinct_add_source:
  "distinct (map fst sm) \<Longrightarrow> distinct (map fst (add_source part sm a))"
  by (simp add: add_source_def distinct_update)

lemma foldl_add_source:
  "dict_get (foldl (add_source part) sm dests) b [] =
     dict_get sm b [] @ replicate (count_list dests b) part
   \<and> fst ` set (foldl (add_source part) sm dests) = fst ` set sm \<union> set dests
   \<and> (distinct (map fst sm) \<longrightarrow> distinct (map fst (foldl (add_source part) sm dests)))"
proof (induction dests arbitrary: sm)
  case Nil
  then show ?case by simp
next
  case (Cons a dests)
  show ?case
    using Cons.IH [of "add_source part sm a"]
    by (auto simp: dict_get_add_source keys_add_source distinct_add_source
        replicate_append_same)
qed

lemma foldl_sources:
  "dict_get (foldl (\<lambda>sm entry. foldl (add_source (fst entry)) sm (snd entry)) sm0 request) b []
     = dict_get sm0 b [] @ sources_of request b
   \<and> fst ` set (foldl (\<lambda>sm entry. foldl (add_source (fst entry)) sm (snd entry)) sm0 request)
     = fst ` set sm0 \<union> (\<Union>entry\<in>set request. set (snd entry))
   \<and> (distinct (map fst sm0) \<longrightarrow>
       distinct (map fst (foldl (\<lambda>sm entry. foldl (add_source (fst entry)) sm (snd entry))
          sm0 request)))"
proof (induction request arbitrary: sm0)
  case Nil
  then show ?case by (simp add: sources_of_def)
next
  case (Cons entry request)
  show ?case
    using Cons.IH [of "foldl (add_source (fst entry)) sm0 (snd entry)"]
      foldl_add_source [of "fst entry" sm0 "snd entry" b]
    by (auto simp: sources_of_def)
qed

lemma sources_mapping_get: "dict_get (sources_mapping request) a [] = sources_of request a"
  using foldl_sources [of "[]" request a] by (simp add: sources_mapping_def dict_get_def)

lemma sources_mapping_keys:
  "fst ` set (sources_mapping request) = (\<Union>entry\<in>set request. set (snd entry))"
  using foldl_sources [of "[]" request] by (simp add: sources_mapping_def)

lemma sources_mapping_distinct: "distinct (map fst (sources_mapping request))"
  using foldl_sources [of "[]" request] by (simp add: sources_mapping_def)

lemma sources_mapping_entry:
  "(a, srcs) \<in> set (sources_mapping request) \<Longrightarrow> srcs = sources_of request a"
  using sources_mapping_get [of request a] sources_mapping_distinct [of request]
  by (simp add: dict_get_def)

lemma sources_of_empty_iff:
  "sources_of request a = [] \<longleftrightarrow> a \<notin> (\<Union>entry\<in>set request. set (snd entry))"
  by (auto simp: sources_of_def count_list_0_iff)

subsection \<open>The effect of one round\<close>

lemma set_destinations: "set (destinations request) = (\<Union>entry\<in>set request. set (snd entry))"
  by (simp add: destinations_def)

lemma sources_mapping_keys': "fst ` set (sources_mapping request) = set (destinations request)"
  by (simp add: sources_mapping_keys set_destinations)

lemma sources_mapping_mem:
  "a \<in> set (destinations request) \<Longrightarrow> (a, sources_of request a) \<in> set (sources_mapping request)"
proof -
  assume "a \<in> set (destinations request)"
  then have "a \<in> fst ` set (sources_mapping request)"
    by (simp only: sources_mapping_keys')
  then obtain srcs where m: "(a, srcs) \<in> set (sources_mapping request)" by auto
  then have "srcs = sources_of request a" by (rule sources_mapping_entry)
  with m show ?thesis by simp
qed

text \<open>The three steps of \<open>fire\<close>, with what the first one returns.\<close>

lemma fire_steps:
  assumes "fire gen beta_of ap c request = Inr c'"
  shows "\<exists>nw c2. distinct (map fst nw)
     \<and> fst ` set nw = set (destinations request)
     \<and> (\<forall>a\<in>set (destinations request).
           \<exists>w. map_of nw a = Some w
             \<and> select_winners ap (ensure_all gen beta_of c (sources_mapping request)) a
                 (sources_of request a) = Inr w)
     \<and> update_connectomes (ensure_all gen beta_of c (sources_mapping request)) nw
           (sources_mapping request) = Inr c2
     \<and> update_winners c2 nw (sources_mapping request) = Inr c'"
proof -
  let ?sm = "sources_mapping request"
  from assms obtain st where
    p0: "fold_err (project_area gen beta_of ap) ([], c) ?sm = Inr st"
    and r0: "(case st of (new_winners, c1) \<Rightarrow>
         case update_connectomes c1 new_winners ?sm of Inl e \<Rightarrow> Inl e
         | Inr c2 \<Rightarrow> update_winners c2 new_winners ?sm) = Inr c'"
    unfolding fire_def Let_def by (cases "fold_err (project_area gen beta_of ap) ([], c) ?sm") simp_all
  obtain nw c1 where st: "st = (nw, c1)" by (cases st)
  from p0 have p: "fold_err (project_area gen beta_of ap) ([], c) ?sm = Inr (nw, c1)"
    by (simp add: st)
  from r0 obtain c2 where u: "update_connectomes c1 nw ?sm = Inr c2"
    and w: "update_winners c2 nw ?sm = Inr c'"
    unfolding st by (cases "update_connectomes c1 nw ?sm") simp_all
  note L = project_loop [OF p sources_mapping_distinct]
  note L1 = L [THEN conjunct1]
  note L2 = L [THEN conjunct2, THEN conjunct1]
  note L3 = L [THEN conjunct2, THEN conjunct2, THEN conjunct1]
  note L5 = L [THEN conjunct2, THEN conjunct2, THEN conjunct2, THEN conjunct2]
  have c1: "c1 = ensure_all gen beta_of c ?sm" by (rule L1)
  from L3 have d: "distinct (map fst nw)" by simp
  from L2 have k: "fst ` set nw = set (destinations request)"
    by (simp add: sources_mapping_keys')
  have s: "\<forall>a\<in>set (destinations request).
           \<exists>w. map_of nw a = Some w \<and> select_winners ap c1 a (sources_of request a) = Inr w"
  proof
    fix a assume "a \<in> set (destinations request)"
    then have "(a, sources_of request a) \<in> set ?sm" by (rule sources_mapping_mem)
    then show "\<exists>w. map_of nw a = Some w
        \<and> select_winners ap c1 a (sources_of request a) = Inr w"
      using L5 [rule_format, of a "sources_of request a"] by simp
  qed
  show ?thesis
    apply (rule exI [of _ nw])
    apply (rule exI [of _ c2])
    using d k s u w unfolding c1 apply (intro conjI)
        apply assumption+
    done
qed

lemma update_connectomes_effect:
  assumes "update_connectomes c1 nw sm = Inr c2" and "distinct (map fst nw)"
  shows "winners c2 = winners c1" and "plasticity_disabled c2 = plasticity_disabled c1"
    and "areas c2 = areas c1" and "stimuli c2 = stimuli c1" and "rng c2 = rng c1" and "p c2 = p c1"
    and "connections c2 key =
      (if plasticity_disabled c1 then connections c1 key
       else map_option (potentiated c1 nw sm key) (connections c1 key))"
proof -
  have "winners c2 = winners c1 \<and> plasticity_disabled c2 = plasticity_disabled c1
     \<and> areas c2 = areas c1 \<and> stimuli c2 = stimuli c1 \<and> rng c2 = rng c1 \<and> p c2 = p c1
     \<and> connections c2 key =
      (if plasticity_disabled c1 then connections c1 key
       else map_option (potentiated c1 nw sm key) (connections c1 key))"
  proof (cases "plasticity_disabled c1")
    case True
    with assms(1) show ?thesis by (simp add: update_connectomes_def)
  next
    case False
    with assms(1) have "fold_err (update_area sm) c1 nw = Inr c2"
      by (simp add: update_connectomes_def)
    from update_loop [OF this assms(2), of key] False show ?thesis by simp
  qed
  then show "winners c2 = winners c1" and "plasticity_disabled c2 = plasticity_disabled c1"
    and "areas c2 = areas c1" and "stimuli c2 = stimuli c1" and "rng c2 = rng c1" and "p c2 = p c1"
    and "connections c2 key =
      (if plasticity_disabled c1 then connections c1 key
       else map_option (potentiated c1 nw sm key) (connections c1 key))"
    by simp_all
qed

lemma round_connection_id:
  assumes "disabled \<or> m = 0"
  shows "round_connection disabled active nws m conn = conn"
proof -
  have "(\<lambda>i j. if \<not> disabled \<and> i \<in> set active \<and> j \<in> set nws
        then synapses conn i j * (1 + beta conn) ^ m else synapses conn i j) = synapses conn"
    using assms by (auto simp: fun_eq_iff)
  then show ?thesis by (simp add: round_connection_def)
qed

lemma fire_effect:
  assumes "fire gen beta_of ap c request = Inr c'"
  shows "a \<in> set (destinations request) \<Longrightarrow>
      select_winners ap (ensure_all gen beta_of c (sources_mapping request)) a
        (sources_of request a) = Inr (winners c' a)"
    and "a \<notin> set (destinations request) \<Longrightarrow> winners c' a = winners c a"
    and "connections c' (src, Area a) =
      map_option (round_connection (plasticity_disabled c) (source_neurons c src) (winners c' a)
          (count_list (sources_of request a) src))
        (connections (ensure_all gen beta_of c (sources_mapping request)) (src, Area a))"
    and "connections c' (src, Stimulus s) = connections c (src, Stimulus s)"
    and "areas c' = areas c" and "stimuli c' = stimuli c"
    and "plasticity_disabled c' = plasticity_disabled c"
proof -
  let ?sm = "sources_mapping request"
  let ?c1 = "ensure_all gen beta_of c ?sm"
  from fire_steps [OF assms] obtain nw c2 where
    d: "distinct (map fst nw)" and k: "fst ` set nw = set (destinations request)"
    and s: "\<forall>a\<in>set (destinations request).
           \<exists>w. map_of nw a = Some w
             \<and> select_winners ap ?c1 a (sources_of request a) = Inr w"
    and u: "update_connectomes ?c1 nw ?sm = Inr c2"
    and w: "update_winners c2 nw ?sm = Inr c'"
    by blast
  note U = update_connectomes_effect [OF u d]
  from w have "fold_err (set_winners nw) c2 (map fst ?sm) = Inr c'"
    by (simp add: update_winners_def)
  note W = update_winners_loop [OF this]
  have win: "winners c' b = (if b \<in> set (destinations request) then the (map_of nw b)
      else winners c b)" for b
    using W U(1) by (simp add: sources_mapping_keys' [symmetric])
  show t: "a \<in> set (destinations request) \<Longrightarrow>
      select_winners ap ?c1 a (sources_of request a) = Inr (winners c' a)"
    using s win [of a] by auto
  show "a \<notin> set (destinations request) \<Longrightarrow> winners c' a = winners c a"
    using win [of a] by simp
  show "areas c' = areas c" "stimuli c' = stimuli c"
    "plasticity_disabled c' = plasticity_disabled c"
    using W U by simp_all
  have conn: "connections c' key =
      (if plasticity_disabled c then connections ?c1 key
       else map_option (potentiated c nw ?sm key) (connections ?c1 key))" for key
  proof -
    have "winners ?c1 = winners c" by simp
    then have "potentiated ?c1 nw ?sm = potentiated c nw ?sm" by (rule potentiated_cong)
    then show ?thesis using U(7) [of key] W by simp
  qed
  have "connections ?c1 (src, Stimulus s) = connections c (src, Stimulus s)"
    by (rule ensure_all_other) simp
  moreover have "potentiated c nw ?sm (src, Stimulus s) = (\<lambda>conn. conn)"
    by (simp add: potentiated_def fun_eq_iff)
  ultimately show "connections c' (src, Stimulus s) = connections c (src, Stimulus s)"
    using conn [of "(src, Stimulus s)"]
    by (simp add: option.map_ident)
  show "connections c' (src, Area a) =
      map_option (round_connection (plasticity_disabled c) (source_neurons c src) (winners c' a)
          (count_list (sources_of request a) src))
        (connections ?c1 (src, Area a))"
  proof (cases "plasticity_disabled c")
    case True
    then have "round_connection (plasticity_disabled c) (source_neurons c src) (winners c' a)
          (count_list (sources_of request a) src) = (\<lambda>conn. conn)"
      by (simp add: fun_eq_iff round_connection_id)
    with True show ?thesis using conn [of "(src, Area a)"] by (simp add: option.map_ident)
  next
    case False
    show ?thesis
    proof (cases "a \<in> set (destinations request)")
      case True
      with s win [of a] have "map_of nw a = Some (winners c' a)" by auto
      then have "potentiated c nw ?sm (src, Area a) =
          round_connection (plasticity_disabled c) (source_neurons c src) (winners c' a)
          (count_list (sources_of request a) src)"
        using False
        by (simp add: potentiated_def potentiated_area_def fun_eq_iff round_connection_def
            scale_entries_funpow sources_mapping_get)
      with False show ?thesis using conn [of "(src, Area a)"] by simp
    next
      case F2: False
      then have "map_of nw a = None" using k by (simp add: map_of_eq_None_iff)
      then have 1: "potentiated c nw ?sm (src, Area a) = (\<lambda>conn. conn)"
        by (simp add: potentiated_def fun_eq_iff)
      from F2 have "sources_of request a = []"
        by (simp add: sources_of_empty_iff set_destinations)
      then have 2: "round_connection (plasticity_disabled c) (source_neurons c src) (winners c' a)
          (count_list (sources_of request a) src) = (\<lambda>conn. conn)"
        by (simp add: fun_eq_iff round_connection_id)
      have "connections c' (src, Area a) =
          map_option (potentiated c nw ?sm (src, Area a)) (connections ?c1 (src, Area a))"
        using conn [of "(src, Area a)"] False by simp
      then show ?thesis by (simp only: 1 2)
    qed
  qed
qed

subsection \<open>The size of the winner set\<close>

lemma length_vec_add: "length (vec_add xs ys) = min (length xs) (length ys)"
  by (simp add: vec_add_def)

lemma length_foldl_vec_add:
  "\<forall>r\<in>set rows. length r = length v \<Longrightarrow> length (foldl vec_add v rows) = length v"
  by (induction rows arbitrary: v) (simp_all add: length_vec_add)

lemma add_area_input_length:
  "add_area_input c a v src = Inr v' \<Longrightarrow> length v = area_n a \<Longrightarrow> length v' = area_n a"
  by (auto simp: add_area_input_def length_foldl_vec_add row_def
      split: option.splits if_splits)

lemma add_stimulus_input_length:
  "add_stimulus_input c a v stim = Inr v' \<Longrightarrow> length v = area_n a \<Longrightarrow> length v' = area_n a"
  by (auto simp: add_stimulus_input_def length_vec_add column_sums_def split: option.splits)

lemma prev_winner_inputs_length:
  assumes "prev_winner_inputs c a srcs = Inr v"
  shows "length v = area_n a"
proof -
  from assms obtain v1 where
    1: "fold_err (add_area_input c a) (replicate (area_n a) 0) (src_areas srcs) = Inr v1"
    and 2: "fold_err (add_stimulus_input c a) v1 (src_stimuli srcs) = Inr v"
    by (auto simp: prev_winner_inputs_def split: sum.splits)
  have "length v1 = area_n a"
    by (rule fold_err_invariant [OF 1, where P = "\<lambda>v. length v = area_n a"])
       (simp_all add: add_area_input_length)
  then show ?thesis
    by (rule fold_err_invariant [OF 2, where P = "\<lambda>v. length v = area_n a"])
       (simp_all add: add_stimulus_input_length)
qed

lemma last_k_permutation:
  assumes "distinct order" and "set order = {0..<n}" and "k \<le> n" and "k = 0 \<longrightarrow> n = 0"
  shows "length (last_k k order) = k \<and> distinct (last_k k order)
     \<and> (\<forall>w\<in>set (last_k k order). w < n)"
proof -
  have len: "length order = n"
    using assms(1,2) distinct_card [of order] by simp
  have "set (last_k k order) \<subseteq> set order"
    by (auto simp: last_k_def dest: in_set_dropD)
  then have "\<forall>w\<in>set (last_k k order). w < n" using assms(2) by auto
  moreover have "distinct (last_k k order)" using assms(1) by (simp add: last_k_def)
  moreover have "length (last_k k order) = k" using assms(3,4) len by (auto simp: last_k_def)
  ultimately show ?thesis by simp
qed

lemma select_winners_count:
  assumes "select_winners ap c a srcs = Inr w" and "index_permutation ap"
    and "area_k a \<le> area_n a"
  shows "length w = area_k a \<and> distinct w \<and> (\<forall>i\<in>set w. i < area_n a)"
proof -
  from assms(1) obtain v order where
    v: "prev_winner_inputs c a srcs = Inr v"
    and o: "np_argpartition ap v (int (area_n a) - int (area_k a)) = Inr order"
    and w: "w = last_k (area_k a) order"
    by (auto simp: select_winners_def split: sum.splits)
  have len: "length v = area_n a" using v by (rule prev_winner_inputs_length)
  let ?kth = "nat (int (area_n a) - int (area_k a))"
  from o assms(3) len have order: "order = ap v ?kth" and ok: "v = [] \<or> ?kth < length v"
    by (auto simp: np_argpartition_def Let_def split: if_splits)
  from ok assms(2) have perm: "distinct order" "set order = {0..<area_n a}"
    unfolding order index_permutation_def len [symmetric] by blast+
  have "area_k a = 0 \<longrightarrow> area_n a = 0"
    using ok len by auto
  from last_k_permutation [OF perm assms(3) this] show ?thesis by (simp add: w)
qed

lemmas fire_defs =
  fire_def sources_mapping_def add_source_def dict_get_def project_area_def project_into_def
  ensure_connections_def ensure_connection_def initialize_connection_def select_winners_def
  prev_winner_inputs_def add_area_input_def add_stimulus_input_def column_sums_def row_def
  vec_add_def np_argpartition_def last_k_def update_connectomes_def update_area_def
  potentiate_def scale_entries_def update_winners_def set_winners_def empty_connectome_def
  argsort_def ones_gen_def tenth_beta_def stim0_def area1_def

lemma index_permutation_argsort: "index_permutation argsort"
  by (simp add: index_permutation_def argsort_def)

lemma fire_stim0_area1:
  "\<not> isl (fire ones_gen tenth_beta argsort (empty_connectome 1 ()) [(Stimulus stim0, [area1])])"
  by (simp add: fire_defs upt_rec numeral_2_eq_2 numeral_3_eq_3)

lemma Inr_projr: "\<not> isl x \<Longrightarrow> x = Inr (projr x)"
  by (cases x) simp_all

lemma fire_synapses:
  assumes "fire gen beta_of ap c request = Inr c'"
    and "connections (ensure_all gen beta_of c (sources_mapping request)) (src, Area a) = Some conn"
  shows "\<exists>conn'. connections c' (src, Area a) = Some conn' \<and> beta conn' = beta conn
     \<and> (\<forall>i j. synapses conn' i j =
          (if \<not> plasticity_disabled c \<and> i \<in> set (source_neurons c src)
              \<and> j \<in> set (winners c' a)
           then synapses conn i j * (1 + beta conn) ^ count_list (sources_of request a) src
           else synapses conn i j))"
  by (simp add: fire_effect(3) [OF assms(1)] assms(2) round_connection_def)

lemma after_first_round_winners: "winners after_first_round area1 = [2]"
  by (simp add: after_first_round_def fire_defs upt_rec numeral_2_eq_2 numeral_3_eq_3)

lemma fire_second_round:
  "\<not> isl (fire ones_gen tenth_beta argsort after_first_round
      [(Stimulus stim0, [area1]), (Area area1, [area1])])"
  by (simp add: after_first_round_def fire_defs upt_rec numeral_2_eq_2 numeral_3_eq_3)

lemma after_first_round_connection:
  "connections after_first_round (Stimulus stim0, Area area1) =
     Some \<lparr>source = Stimulus stim0, dest = Area area1,
       synapses = (\<lambda>i j. if (i = 0 \<or> i = 1) \<and> j = 2 then 11 / 10 else 1), beta = 1 / 10\<rparr>"
  by (simp add: after_first_round_def fire_defs upt_rec numeral_2_eq_2 numeral_3_eq_3 fun_eq_iff)

lemma fire_third_round:
  "\<not> isl (fire ones_gen tenth_beta argsort after_second_round second_request)"
  by (simp add: after_second_round_def second_request_def after_first_round_def fire_defs
      upt_rec numeral_2_eq_2 numeral_3_eq_3)

lemma after_second_round_connections:
  "connections after_second_round (Area area1, Area area1) \<noteq> None"
  "connections after_second_round (Stimulus stim0, Area area1) \<noteq> None"
  "\<not> plasticity_disabled after_second_round"
  by (simp_all add: after_second_round_def second_request_def after_first_round_def fire_defs
      upt_rec numeral_2_eq_2 numeral_3_eq_3)

lemma sources_of_second_request:
  "sources_of second_request area1 = [Stimulus stim0, Area area1]"
  by (simp add: sources_of_def second_request_def)

lemma after_first_round_connection':
  "connections after_first_round (Stimulus stim0, Area area1) = Some first_round_connection"
  by (simp add: after_first_round_connection first_round_connection_def)

lemma fire_second_round':
  "fire ones_gen tenth_beta argsort after_first_round second_request = Inr after_second_round"
  unfolding after_second_round_def
  by (rule Inr_projr) (simp add: second_request_def fire_second_round)

lemma after_first_round_enabled: "\<not> plasticity_disabled after_first_round"
  by (simp add: after_first_round_def fire_defs upt_rec numeral_2_eq_2 numeral_3_eq_3)

subsection \<open>The inputs of an area, source by source\<close>

lemma nth_foldl_vec_add:
  "\<forall>r\<in>set rows. length r = length v \<Longrightarrow> j < length v \<Longrightarrow>
   foldl vec_add v rows ! j = v ! j + sum_list (map (\<lambda>r. r ! j) rows)"
proof (induction rows arbitrary: v)
  case Nil
  then show ?case by simp
next
  case (Cons r rows)
  have "length (vec_add v r) = length v" using Cons.prems by (simp add: length_vec_add)
  moreover have "vec_add v r ! j = v ! j + r ! j"
    using Cons.prems by (simp add: vec_add_def)
  ultimately show ?case using Cons.IH [of "vec_add v r"] Cons.prems by simp
qed

lemma add_area_input_nth:
  assumes "add_area_input c a v s = Inr v'" and "length v = area_n a" and "j < area_n a"
  shows "v' ! j = v ! j + part_input c a (Area s) j"
proof -
  from assms(1) obtain conn where conn: "connections c (Area s, Area a) = Some conn"
    and v': "v' = foldl vec_add v (map (row (synapses conn) (area_n a)) (winners c s))"
    by (auto simp: add_area_input_def split: option.splits if_splits)
  have "v' ! j = v ! j + sum_list (map (\<lambda>r. r ! j)
      (map (row (synapses conn) (area_n a)) (winners c s)))"
    unfolding v' using assms(2,3) by (intro nth_foldl_vec_add) (auto simp: row_def)
  also have "map (\<lambda>r. r ! j) (map (row (synapses conn) (area_n a)) (winners c s))
      = map (\<lambda>i. synapses conn i j) (winners c s)"
    using assms(3) by (simp add: row_def)
  finally show ?thesis by (simp add: part_input_def conn)
qed

lemma add_stimulus_input_nth:
  assumes "add_stimulus_input c a v s = Inr v'" and "length v = area_n a" and "j < area_n a"
  shows "v' ! j = v ! j + part_input c a (Stimulus s) j"
  using assms
  by (auto simp: add_stimulus_input_def part_input_def vec_add_def column_sums_def
      split: option.splits)

lemma fold_area_inputs:
  assumes "fold_err (add_area_input c a) v ss = Inr v'" and "length v = area_n a"
    and "j < area_n a"
  shows "length v' = area_n a
     \<and> v' ! j = v ! j + sum_list (map (\<lambda>s. part_input c a (Area s) j) ss)"
  using assms(1,2)
proof (induction ss arbitrary: v)
  case Nil
  then show ?case by simp
next
  case (Cons s ss)
  from Cons.prems(1) obtain v1 where 1: "add_area_input c a v s = Inr v1"
    and 2: "fold_err (add_area_input c a) v1 ss = Inr v'"
    by (auto split: sum.splits)
  have l: "length v1 = area_n a" using 1 Cons.prems(2) by (rule add_area_input_length)
  from Cons.IH [OF 2 l] add_area_input_nth [OF 1 Cons.prems(2) assms(3)]
  show ?case by simp
qed

lemma fold_stimulus_inputs:
  assumes "fold_err (add_stimulus_input c a) v ss = Inr v'" and "length v = area_n a"
    and "j < area_n a"
  shows "length v' = area_n a
     \<and> v' ! j = v ! j + sum_list (map (\<lambda>s. part_input c a (Stimulus s) j) ss)"
  using assms(1,2)
proof (induction ss arbitrary: v)
  case Nil
  then show ?case by simp
next
  case (Cons s ss)
  from Cons.prems(1) obtain v1 where 1: "add_stimulus_input c a v s = Inr v1"
    and 2: "fold_err (add_stimulus_input c a) v1 ss = Inr v'"
    by (auto split: sum.splits)
  have l: "length v1 = area_n a" using 1 Cons.prems(2) by (rule add_stimulus_input_length)
  from Cons.IH [OF 2 l] add_stimulus_input_nth [OF 1 Cons.prems(2) assms(3)]
  show ?case by simp
qed

lemma sum_list_by_kind:
  "sum_list (map (f :: brain_part \<Rightarrow> real) srcs) =
   sum_list (map (\<lambda>s. f (Area s)) (src_areas srcs))
   + sum_list (map (\<lambda>s. f (Stimulus s)) (src_stimuli srcs))"
  by (induction srcs rule: src_areas.induct) simp_all

lemma prev_winner_inputs_nth:
  assumes "prev_winner_inputs c a srcs = Inr v" and "j < area_n a"
  shows "v ! j = sum_list (map (\<lambda>src. part_input c a src j) srcs)"
proof -
  from assms(1) obtain v1 where
    1: "fold_err (add_area_input c a) (replicate (area_n a) 0) (src_areas srcs) = Inr v1"
    and 2: "fold_err (add_stimulus_input c a) v1 (src_stimuli srcs) = Inr v"
    by (auto simp: prev_winner_inputs_def split: sum.splits)
  have A: "length v1 = area_n a \<and> v1 ! j = replicate (area_n a) 0 ! j
      + sum_list (map (\<lambda>s. part_input c a (Area s) j) (src_areas srcs))"
    by (rule fold_area_inputs [OF 1 _ assms(2)]) simp
  then have "length v1 = area_n a" by simp
  from fold_stimulus_inputs [OF 2 this assms(2)] A assms(2)
  show ?thesis by (simp add: sum_list_by_kind [of "\<lambda>src. part_input c a src j"])
qed

lemma count_list_replicate:
  "count_list (replicate n x) y = (if x = y then n else 0)"
  by (induction n) auto

lemma count_sources_of:
  assumes "distinct (map fst request)" and "(part, dests) \<in> set request"
  shows "count_list (sources_of request a) part = count_list dests a"
  using assms
proof (induction request)
  case Nil
  then show ?case by simp
next
  case (Cons entry request)
  have split: "sources_of (entry # request) a
      = replicate (count_list (snd entry) a) (fst entry) @ sources_of request a"
    by (simp add: sources_of_def)
  show ?case
  proof (cases "entry = (part, dests)")
    case True
    with Cons.prems(1) have "part \<notin> fst ` set request" by simp
    then have "part \<notin> set (sources_of request a)"
      by (auto simp: sources_of_def)
    then have "count_list (sources_of request a) part = 0" by (simp add: count_list_0_iff)
    then show ?thesis unfolding split using True by (simp add: count_list_replicate)
  next
    case False
    with Cons.prems have in_rest: "(part, dests) \<in> set request" by simp
    then have "part \<in> fst ` set request" by force
    moreover from Cons.prems(1) have "fst entry \<notin> fst ` set request" by simp
    ultimately have "fst entry \<noteq> part" by blast
    then have "count_list (replicate (count_list (snd entry) a) (fst entry)) part = 0"
      by (simp add: count_list_replicate)
    then show ?thesis unfolding split using Cons.IH in_rest Cons.prems(1) by simp
  qed
qed

lemma fire_twice_request:
  "\<not> isl (fire ones_gen tenth_beta argsort (empty_connectome 1 ()) twice_request)"
  by (simp add: twice_request_def fire_defs upt_rec numeral_2_eq_2 numeral_3_eq_3)

lemma empty_connectome_enabled: "\<not> plasticity_disabled (empty_connectome prob r)"
  by (simp add: empty_connectome_def)

subsection \<open>No round fails for a missing connection\<close>

lemma select_winners_no_KeyError:
  assumes "\<And>src. src \<in> set srcs \<Longrightarrow> \<exists>conn. connections c (src, Area a) = Some conn"
  shows "select_winners ap c a srcs \<noteq> Inl KeyError"
proof -
  have 1: "fold_err (add_area_input c a) v (src_areas srcs) \<noteq> Inl KeyError" for v
  proof (rule fold_err_never [where P = "\<lambda>v. True"])
    fix t s assume "s \<in> set (src_areas srcs)"
    then have "Area s \<in> set srcs" by (simp add: set_src_areas)
    from assms [OF this] show "add_area_input c a t s \<noteq> Inl KeyError"
      by (auto simp: add_area_input_def split: if_splits)
  qed simp_all
  have 2: "fold_err (add_stimulus_input c a) v (src_stimuli srcs) \<noteq> Inl KeyError" for v
  proof (rule fold_err_never [where P = "\<lambda>v. True"])
    fix t s assume "s \<in> set (src_stimuli srcs)"
    then have "Stimulus s \<in> set srcs" by (simp add: set_src_stimuli)
    from assms [OF this] show "add_stimulus_input c a t s \<noteq> Inl KeyError"
      by (auto simp: add_stimulus_input_def)
  qed simp_all
  have "prev_winner_inputs c a srcs \<noteq> Inl KeyError"
    using 1 2 by (auto simp: prev_winner_inputs_def split: sum.splits)
  then show ?thesis
    by (auto simp: select_winners_def np_argpartition_def Let_def split: sum.splits if_splits)
qed

lemma project_area_no_KeyError: "project_area gen beta_of ap st entry \<noteq> Inl KeyError"
proof -
  have "select_winners ap (ensure_connections gen beta_of (snd st) (fst entry) (snd entry))
      (fst entry) (snd entry) \<noteq> Inl KeyError"
  proof (rule select_winners_no_KeyError)
    fix src assume "src \<in> set (snd entry)"
    then show "\<exists>conn. connections (ensure_connections gen beta_of (snd st) (fst entry)
        (snd entry)) (src, Area (fst entry)) = Some conn"
      using ensure_connections_key [of src "snd entry" gen beta_of "snd st" "fst entry"]
      by auto
  qed
  then show ?thesis
    by (auto simp: project_area_def project_into_def Let_def split: sum.splits)
qed

lemma potentiate_no_KeyError:
  "connections c (src, Area a) = Some conn \<Longrightarrow> potentiate a nws c src \<noteq> Inl KeyError"
  by (simp add: potentiate_def Let_def)

lemma potentiate_keeps_keys:
  assumes "potentiate a nws c src = Inr c'" and "connections c key = Some conn"
  shows "\<exists>conn'. connections c' key = Some conn'"
  using potentiate_step [OF assms(1)] assms(2) by auto

lemma potentiate_sources_connected:
  assumes "potentiate a nws c src = Inr c'" and "sources_connected sm c"
  shows "sources_connected sm c'"
  unfolding sources_connected_def
proof (intro allI impI)
  fix b s assume "s \<in> set (dict_get sm b [])"
  with assms(2) obtain conn where "connections c (s, Area b) = Some conn"
    unfolding sources_connected_def by blast
  then show "\<exists>conn. connections c' (s, Area b) = Some conn"
    by (rule potentiate_keeps_keys [OF assms(1)])
qed

lemma update_area_sources_connected:
  assumes "update_area sm c entry = Inr c'" and "sources_connected sm c"
  shows "sources_connected sm c'"
proof -
  from assms(1) have
    "fold_err (potentiate (fst entry) (snd entry)) c (dict_get sm (fst entry) []) = Inr c'"
    by (simp add: update_area_def)
  then show ?thesis
    by (rule fold_err_invariant [where P = "sources_connected sm"])
       (auto intro: assms(2) potentiate_sources_connected)
qed

lemma update_area_no_KeyError:
  assumes "sources_connected sm c"
  shows "update_area sm c entry \<noteq> Inl KeyError"
  unfolding update_area_def
proof (rule fold_err_never [where P = "sources_connected sm"])
  show "sources_connected sm c" by (rule assms)
next
  fix t src assume "sources_connected sm t" "src \<in> set (dict_get sm (fst entry) [])"
  then obtain conn where "connections t (src, Area (fst entry)) = Some conn"
    unfolding sources_connected_def by blast
  then show "potentiate (fst entry) (snd entry) t src \<noteq> Inl KeyError"
    by (rule potentiate_no_KeyError)
next
  fix t src t'
  assume "sources_connected sm t" "potentiate (fst entry) (snd entry) t src = Inr t'"
  then show "sources_connected sm t'" by (simp add: potentiate_sources_connected)
qed

lemma update_connectomes_no_KeyError:
  assumes "sources_connected sm c"
  shows "update_connectomes c nw sm \<noteq> Inl KeyError"
proof (cases "plasticity_disabled c")
  case True
  then show ?thesis by (simp add: update_connectomes_def)
next
  case False
  have "fold_err (update_area sm) c nw \<noteq> Inl KeyError"
  proof (rule fold_err_never [where P = "sources_connected sm"])
    show "sources_connected sm c" by (rule assms)
  next
    fix t entry assume "sources_connected sm t"
    then show "update_area sm t entry \<noteq> Inl KeyError" by (rule update_area_no_KeyError)
  next
    fix t entry t' assume "sources_connected sm t" "update_area sm t entry = Inr t'"
    then show "sources_connected sm t'" by (simp add: update_area_sources_connected)
  qed
  with False show ?thesis by (simp add: update_connectomes_def)
qed

lemma update_winners_no_KeyError:
  assumes "fst ` set sm \<subseteq> fst ` set nw"
  shows "update_winners c nw sm \<noteq> Inl KeyError"
  unfolding update_winners_def
proof (rule fold_err_never [where P = "\<lambda>c. True"])
  fix t a assume "a \<in> set (map fst sm)"
  with assms have "a \<in> fst ` set nw" by auto
  then have "map_of nw a \<noteq> None" by (simp add: map_of_eq_None_iff)
  then show "set_winners nw t a \<noteq> Inl KeyError"
    by (auto simp: set_winners_def)
qed simp_all

lemma sources_connected_ensure_all:
  "sources_connected (sources_mapping request)
     (ensure_all gen beta_of c (sources_mapping request))"
  unfolding sources_connected_def
proof (intro allI impI)
  fix a src assume s: "src \<in> set (dict_get (sources_mapping request) a [])"
  then have s': "src \<in> set (sources_of request a)" by (simp add: sources_mapping_get)
  then have "sources_of request a \<noteq> []" by auto
  then have "a \<in> set (destinations request)"
    by (simp add: sources_of_empty_iff set_destinations)
  then have "(a, sources_of request a) \<in> set (sources_mapping request)"
    by (rule sources_mapping_mem)
  from ensure_all_key [OF this s']
  show "\<exists>conn. connections (ensure_all gen beta_of c (sources_mapping request))
      (src, Area a) = Some conn" .
qed

lemma fire_no_KeyError: "fire gen beta_of ap c request \<noteq> Inl KeyError"
proof -
  let ?sm = "sources_mapping request"
  show ?thesis
  proof (cases "fold_err (project_area gen beta_of ap) ([], c) ?sm")
    case (Inl e)
    have "fold_err (project_area gen beta_of ap) ([], c) ?sm \<noteq> Inl KeyError"
      by (rule fold_err_never [where P = "\<lambda>st. True"])
         (simp_all add: project_area_no_KeyError)
    with Inl show ?thesis by (simp add: fire_def)
  next
    case (Inr st)
    obtain nw c1 where st: "st = (nw, c1)" by (cases st)
    from Inr have p: "fold_err (project_area gen beta_of ap) ([], c) ?sm = Inr (nw, c1)"
      by (simp add: st)
    note L = project_loop [OF p sources_mapping_distinct]
    have c1: "c1 = ensure_all gen beta_of c ?sm" by (rule L [THEN conjunct1])
    have k: "fst ` set ?sm \<subseteq> fst ` set nw"
      using L [THEN conjunct2, THEN conjunct1] by simp
    have u: "update_connectomes c1 nw ?sm \<noteq> Inl KeyError"
      unfolding c1 by (rule update_connectomes_no_KeyError [OF sources_connected_ensure_all])
    have w: "update_winners c2 nw ?sm \<noteq> Inl KeyError" for c2
      by (rule update_winners_no_KeyError [OF k])
    show ?thesis
      using p u w by (auto simp: fire_def Let_def split: sum.splits)
  qed
qed

subsection \<open>A round does not read the registered parts\<close>

lemma fold_err_commute:
  assumes "\<And>s x. f (g s) x = map_sum id g (f s x)"
  shows "fold_err f (g s) xs = map_sum id g (fold_err f s xs)"
proof (induction xs arbitrary: s)
  case Nil
  then show ?case by simp
next
  case (Cons x xs)
  show ?case
  proof (cases "f s x")
    case (Inl e)
    then show ?thesis by (simp add: assms)
  next
    case (Inr t)
    then show ?thesis using Cons.IH [of t] by (simp add: assms)
  qed
qed

lemma initialize_connection_parts:
  "initialize_connection gen beta_of part area (c\<lparr>areas := regs, stimuli := stims\<rparr>)
   = (initialize_connection gen beta_of part area c)\<lparr>areas := regs, stimuli := stims\<rparr>"
  by (simp add: initialize_connection_def split: prod.splits)

lemma ensure_connection_parts:
  "ensure_connection gen beta_of a (c\<lparr>areas := regs, stimuli := stims\<rparr>) part
   = (ensure_connection gen beta_of a c part)\<lparr>areas := regs, stimuli := stims\<rparr>"
  by (simp add: ensure_connection_def initialize_connection_parts)

lemma ensure_connections_parts:
  "ensure_connections gen beta_of (c\<lparr>areas := regs, stimuli := stims\<rparr>) a srcs
   = (ensure_connections gen beta_of c a srcs)\<lparr>areas := regs, stimuli := stims\<rparr>"
  unfolding ensure_connections_def
  by (induction srcs arbitrary: c) (simp_all add: ensure_connection_parts)

lemma select_winners_parts:
  "select_winners ap (c\<lparr>areas := regs, stimuli := stims\<rparr>) a srcs = select_winners ap c a srcs"
  by (rule select_winners_cong) simp_all

lemma project_area_parts:
  "project_area gen beta_of ap (apsnd (\<lambda>c. c\<lparr>areas := regs, stimuli := stims\<rparr>) st) entry
   = map_sum id (apsnd (\<lambda>c. c\<lparr>areas := regs, stimuli := stims\<rparr>))
       (project_area gen beta_of ap st entry)"
  by (cases st)
     (simp add: project_area_def project_into_def Let_def ensure_connections_parts
       select_winners_parts split: sum.splits)

lemma source_neurons_parts:
  "source_neurons (c\<lparr>areas := regs, stimuli := stims\<rparr>) src = source_neurons c src"
  by (cases src) simp_all

lemma potentiate_parts:
  "potentiate a nws (c\<lparr>areas := regs, stimuli := stims\<rparr>) src
   = map_sum id (\<lambda>c. c\<lparr>areas := regs, stimuli := stims\<rparr>) (potentiate a nws c src)"
  by (simp add: potentiate_def Let_def source_neurons_parts split: option.splits)

lemma update_area_parts:
  "update_area sm (c\<lparr>areas := regs, stimuli := stims\<rparr>) entry
   = map_sum id (\<lambda>c. c\<lparr>areas := regs, stimuli := stims\<rparr>) (update_area sm c entry)"
  unfolding update_area_def by (rule fold_err_commute) (rule potentiate_parts)

lemma update_connectomes_parts:
  "update_connectomes (c\<lparr>areas := regs, stimuli := stims\<rparr>) nw sm
   = map_sum id (\<lambda>c. c\<lparr>areas := regs, stimuli := stims\<rparr>) (update_connectomes c nw sm)"
proof (cases "plasticity_disabled c")
  case True
  then show ?thesis by (simp add: update_connectomes_def)
next
  case False
  have "fold_err (update_area sm) (c\<lparr>areas := regs, stimuli := stims\<rparr>) nw
      = map_sum id (\<lambda>c. c\<lparr>areas := regs, stimuli := stims\<rparr>) (fold_err (update_area sm) c nw)"
    by (rule fold_err_commute) (rule update_area_parts)
  with False show ?thesis by (simp add: update_connectomes_def)
qed

lemma set_winners_parts:
  "set_winners nw (c\<lparr>areas := regs, stimuli := stims\<rparr>) a
   = map_sum id (\<lambda>c. c\<lparr>areas := regs, stimuli := stims\<rparr>) (set_winners nw c a)"
  by (simp add: set_winners_def split: option.splits)

lemma update_winners_parts:
  "update_winners (c\<lparr>areas := regs, stimuli := stims\<rparr>) nw sm
   = map_sum id (\<lambda>c. c\<lparr>areas := regs, stimuli := stims\<rparr>) (update_winners c nw sm)"
  unfolding update_winners_def by (rule fold_err_commute) (rule set_winners_parts)

lemma fire_parts:
  "fire gen beta_of ap (c\<lparr>areas := regs, stimuli := stims\<rparr>) request
   = map_sum id (\<lambda>c'. c'\<lparr>areas := regs, stimuli := stims\<rparr>) (fire gen beta_of ap c request)"
proof -
  let ?g = "\<lambda>c::'a connectome. c\<lparr>areas := regs, stimuli := stims\<rparr>"
  let ?sm = "sources_mapping request"
  have "fold_err (project_area gen beta_of ap) (apsnd ?g ([], c)) ?sm
      = map_sum id (apsnd ?g) (fold_err (project_area gen beta_of ap) ([], c) ?sm)"
    by (rule fold_err_commute) (rule project_area_parts)
  then have p: "fold_err (project_area gen beta_of ap) ([], ?g c) ?sm
      = map_sum id (apsnd ?g) (fold_err (project_area gen beta_of ap) ([], c) ?sm)"
    by simp
  show ?thesis
  proof (cases "fold_err (project_area gen beta_of ap) ([], c) ?sm")
    case (Inl e)
    then show ?thesis using p by (simp add: fire_def)
  next
    case (Inr st)
    obtain nw c1 where st: "st = (nw, c1)" by (cases st)
    show ?thesis
    proof (cases "update_connectomes c1 nw ?sm")
      case Inl
      then show ?thesis
        using p Inr by (simp add: fire_def st update_connectomes_parts)
    next
      case (Inr c2)
      then show ?thesis
        using p \<open>fold_err (project_area gen beta_of ap) ([], c) ?sm = Inr st\<close>
        by (simp add: fire_def st update_connectomes_parts update_winners_parts)
    qed
  qed
qed

subsection \<open>What the lazy creation stores\<close>

lemma ensure_connection_p [simp]: "p (ensure_connection gen beta_of a c part) = p c"
  by (simp add: ensure_connection_def)

lemma ensure_connection_result:
  assumes "connections (ensure_connection gen beta_of b c src) (part, Area a) = Some conn1"
  shows "connections c (part, Area a) = Some conn1
     \<or> (connections c (part, Area a) = None
        \<and> conn1 = \<lparr>source = part, dest = Area a,
             synapses = fst (gen (rng c) (area_n a) (part_n part) (p c)),
             beta = beta_of part (Area a)\<rparr>)"
  using assms
  by (auto simp: ensure_connection_def initialize_connection_def split: if_splits prod.splits)

lemma ensure_connections_result:
  assumes "connections (ensure_connections gen beta_of c b srcs) (part, Area a) = Some conn1"
  shows "connections c (part, Area a) = Some conn1
     \<or> (connections c (part, Area a) = None
        \<and> (\<exists>r. conn1 = \<lparr>source = part, dest = Area a,
             synapses = fst (gen r (area_n a) (part_n part) (p c)),
             beta = beta_of part (Area a)\<rparr>))"
  using assms unfolding ensure_connections_def
proof (induction srcs arbitrary: c)
  case Nil
  then show ?case by simp
next
  case (Cons s srcs)
  let ?c1 = "ensure_connection gen beta_of b c s"
  from Cons.prems have "connections (foldl (ensure_connection gen beta_of b) ?c1 srcs)
      (part, Area a) = Some conn1" by simp
  from Cons.IH [OF this] consider
    (kept) "connections ?c1 (part, Area a) = Some conn1"
    | (made) r where "connections ?c1 (part, Area a) = None"
        "conn1 = \<lparr>source = part, dest = Area a,
             synapses = fst (gen r (area_n a) (part_n part) (p c)),
             beta = beta_of part (Area a)\<rparr>"
    by auto
  then show ?case
  proof cases
    case kept
    from ensure_connection_result [OF kept] show ?thesis by blast
  next
    case made
    have "connections c (part, Area a) = None"
    proof (rule ccontr)
      assume "connections c (part, Area a) \<noteq> None"
      then obtain conn where "connections c (part, Area a) = Some conn" by auto
      then have "connections ?c1 (part, Area a) = Some conn" by (rule ensure_connection_keeps)
      with made(1) show False by simp
    qed
    with made(2) show ?thesis by blast
  qed
qed

lemma ensure_connections_p [simp]: "p (ensure_connections gen beta_of c a srcs) = p c"
  unfolding ensure_connections_def by (induction srcs arbitrary: c) simp_all

lemma ensure_all_result:
  assumes "connections (ensure_all gen beta_of c sm) (part, Area a) = Some conn1"
  shows "connections c (part, Area a) = Some conn1
     \<or> (connections c (part, Area a) = None
        \<and> (\<exists>r. conn1 = \<lparr>source = part, dest = Area a,
             synapses = fst (gen r (area_n a) (part_n part) (p c)),
             beta = beta_of part (Area a)\<rparr>))"
  using assms
proof (induction sm arbitrary: c)
  case Nil
  then show ?case by (simp add: ensure_all_def)
next
  case (Cons entry sm)
  let ?c1 = "ensure_connections gen beta_of c (fst entry) (snd entry)"
  from Cons.prems have "connections (ensure_all gen beta_of ?c1 sm) (part, Area a) = Some conn1"
    by (simp add: ensure_all_Cons)
  from Cons.IH [OF this] consider
    (kept) "connections ?c1 (part, Area a) = Some conn1"
    | (made) r where "connections ?c1 (part, Area a) = None"
        "conn1 = \<lparr>source = part, dest = Area a,
             synapses = fst (gen r (area_n a) (part_n part) (p c)),
             beta = beta_of part (Area a)\<rparr>"
    by auto
  then show ?case
  proof cases
    case kept
    from ensure_connections_result [OF kept] show ?thesis by blast
  next
    case made
    have "connections c (part, Area a) = None"
    proof (rule ccontr)
      assume "connections c (part, Area a) \<noteq> None"
      then obtain conn where "connections c (part, Area a) = Some conn" by auto
      then have "connections ?c1 (part, Area a) = Some conn" by (rule ensure_connections_keeps)
      with made(1) show False by simp
    qed
    with made(2) show ?thesis by blast
  qed
qed

section \<open>The properties\<close>

text \<open>
  C1. Fan-in: an assembly \<open>B\<close> (owning area 3) has the parents \<open>A1\<close> (owning area 1) and
  \<open>A2\<close> (owning area 2), both with the stimulus 0 as their only parent. The specification says that
  \<open>fire_many\<close> of \<open>B\<close> fires the stimulus into both area 1 and area 2 in one round.
  The layer-building loop reads the accumulated list under the child (\<open>current_layer.get(ass,
  [])\<close>) and not under the parent, so the entry written for \<open>A1\<close> is overwritten by the
  one for \<open>A2\<close>: the first round fires the stimulus into area 2 only, and no round fires
  it into area 1.
\<close>

theorem fire_many_fan_in_rounds:
  "fire_many_rounds
     [Assembly 3 (MkArea 3 10 3)
        [Assembly 1 (MkArea 1 10 3) [PStimulus (MkStimulus 0 5)],
         Assembly 2 (MkArea 2 10 3) [PStimulus (MkStimulus 0 5)]]]
     (MkArea 3 10 3) =
   [[(Stimulus (MkStimulus 0 5), [MkArea 2 10 3])],
    [(Area (MkArea 1 10 3), [MkArea 3 10 3]), (Area (MkArea 2 10 3), [MkArea 3 10 3])],
    [(Area (MkArea 3 10 3), [MkArea 3 10 3])]]"
  by (simp add: scheduler_defs parent_layers.simps)

text \<open>
  C2. Chain: a stimulus \<open>s\<close>, an assembly \<open>A\<close> in area \<open>x\<close> with parent \<open>s\<close>, an assembly
  \<open>B\<close> in area \<open>y\<close> with parent \<open>A\<close>. The specification says that \<open>fire_many\<close> of \<open>B\<close> into \<open>y\<close>
  runs exactly two rounds. It runs three: the layer of the request itself is a round
  too, and fires the area of \<open>B\<close> into the target.
\<close>

theorem fire_many_chain_counterexample:
  "length (fire_many_rounds
     [Assembly 2 (MkArea 2 10 3) [Assembly 1 (MkArea 1 10 3) [PStimulus (MkStimulus 0 5)]]]
     (MkArea 2 10 3)) = 3
   \<and> fire_many_rounds
     [Assembly 2 (MkArea 2 10 3) [Assembly 1 (MkArea 1 10 3) [PStimulus (MkStimulus 0 5)]]]
     (MkArea 2 10 3) \<noteq>
     [[(Stimulus (MkStimulus 0 5), [MkArea 1 10 3])],
      [(Area (MkArea 1 10 3), [MkArea 2 10 3])]]"
  by (simp add: scheduler_defs parent_layers.simps)

text \<open>
  C2, as the code has it: for the chain and any target area \<open>t\<close>, \<open>fire_many\<close> runs exactly
  three rounds, in this order: the stimulus into \<open>x\<close>, the area \<open>x\<close> into \<open>y\<close>, the area
  \<open>y\<close> into the target \<open>t\<close>; each is one call of \<open>next_round\<close>.
\<close>

theorem fire_many_chain_rounds:
  "fire_many_rounds [Assembly nb y [Assembly na x [PStimulus s]]] t =
     [[(Stimulus s, [x])], [(Area x, [y])], [(Area y, [t])]]
   \<and> fire_many next_round brain [Assembly nb y [Assembly na x [PStimulus s]]] t =
     run_rounds next_round brain [[(Stimulus s, [x])], [(Area x, [y])], [(Area y, [t])]]"
  by (simp add: fire_many_def scheduler_defs parent_layers.simps)

text \<open>
  C3. The specification says that a request naming a part or an area that was never registered
  fails with an error and creates no connection. On a connectome with no registered part
  and no connection, firing a stimulus into an area succeeds, and the connection from the
  stimulus into the area exists afterwards.
\<close>

theorem fire_unregistered_counterexample:
  "areas (empty_connectome 1 ()) = []
   \<and> stimuli (empty_connectome 1 ()) = []
   \<and> connections (empty_connectome 1 ()) (Stimulus stim0, Area area1) = None
   \<and> \<not> isl (fire ones_gen tenth_beta argsort (empty_connectome 1 ())
        [(Stimulus stim0, [area1])])
   \<and> connections (projr (fire ones_gen tenth_beta argsort (empty_connectome 1 ())
        [(Stimulus stim0, [area1])])) (Stimulus stim0, Area area1) \<noteq> None"
  by (simp add: fire_defs upt_rec numeral_2_eq_2 numeral_3_eq_3)

text \<open>
  C3, as the code has it: a request that names a part or an area that was never
  registered is not rejected. The result of \<open>fire\<close> does not depend on the registered
  areas and stimuli, and no round fails for a missing connection (the model's
  \<open>KeyError\<close>). After a round that returns, every pair of a part and a destination area
  of the request has a connection: the one it had before the call when it had one (kept,
  not generated again), otherwise one built from a freshly generated matrix for the two
  parts and the probability \<open>p\<close>; in both cases with the plasticity scaling of the round
  applied to its weights and nothing else changed.
\<close>

theorem fire_creates_missing_connections:
  "fire gen beta_of ap c request \<noteq> Inl KeyError
   \<and> fire gen beta_of ap (c\<lparr>areas := regs, stimuli := stims\<rparr>) request
       = map_sum id (\<lambda>c'. c'\<lparr>areas := regs, stimuli := stims\<rparr>) (fire gen beta_of ap c request)
   \<and> (fire gen beta_of ap c request = Inr c' \<longrightarrow>
        (part, dests) \<in> set request \<longrightarrow> a \<in> set dests \<longrightarrow>
        (\<exists>conn1.
           (case connections c (part, Area a) of
              Some conn \<Rightarrow> conn1 = conn
            | None \<Rightarrow>
                (\<exists>r. conn1 = \<lparr>source = part, dest = Area a,
                   synapses = fst (gen r (area_n a) (part_n part) (p c)),
                   beta = beta_of part (Area a)\<rparr>))
           \<and> connections c' (part, Area a) =
               Some (conn1\<lparr>synapses := (\<lambda>i j.
                  if \<not> plasticity_disabled c \<and> i \<in> set (source_neurons c part)
                     \<and> j \<in> set (winners c' a)
                  then synapses conn1 i j
                         * (1 + beta conn1) ^ count_list (sources_of request a) part
                  else synapses conn1 i j)\<rparr>)))"
proof (intro conjI impI)
  show "fire gen beta_of ap c request \<noteq> Inl KeyError" by (rule fire_no_KeyError)
next
  show "fire gen beta_of ap (c\<lparr>areas := regs, stimuli := stims\<rparr>) request
       = map_sum id (\<lambda>c'. c'\<lparr>areas := regs, stimuli := stims\<rparr>) (fire gen beta_of ap c request)"
    by (rule fire_parts)
next
  assume f: "fire gen beta_of ap c request = Inr c'"
    and m: "(part, dests) \<in> set request" and a: "a \<in> set dests"
  let ?c1 = "ensure_all gen beta_of c (sources_mapping request)"
  have "count_list (snd (part, dests)) a \<noteq> 0"
    using a by (simp add: count_list_0_iff)
  then have src: "part \<in> set (sources_of request a)"
    using m unfolding sources_of_def by (auto intro!: bexI [of _ "(part, dests)"])
  have dest: "a \<in> set (destinations request)"
    using m a by (force simp: set_destinations)
  then have "(a, sources_of request a) \<in> set (sources_mapping request)"
    by (rule sources_mapping_mem)
  from ensure_all_key [OF this src] obtain conn1 where
    k: "connections ?c1 (part, Area a) = Some conn1"
    by blast
  have 1: "case connections c (part, Area a) of
              Some conn \<Rightarrow> conn1 = conn
            | None \<Rightarrow>
                (\<exists>r. conn1 = \<lparr>source = part, dest = Area a,
                   synapses = fst (gen r (area_n a) (part_n part) (p c)),
                   beta = beta_of part (Area a)\<rparr>)"
    using ensure_all_result [OF k] by (auto split: option.splits)
  have 2: "connections c' (part, Area a) =
               Some (conn1\<lparr>synapses := (\<lambda>i j.
                  if \<not> plasticity_disabled c \<and> i \<in> set (source_neurons c part)
                     \<and> j \<in> set (winners c' a)
                  then synapses conn1 i j
                         * (1 + beta conn1) ^ count_list (sources_of request a) part
                  else synapses conn1 i j)\<rparr>)"
    by (simp add: fire_effect(3) [OF f] k round_connection_def)
  from 1 2 show "\<exists>conn1.
           (case connections c (part, Area a) of
              Some conn \<Rightarrow> conn1 = conn
            | None \<Rightarrow>
                (\<exists>r. conn1 = \<lparr>source = part, dest = Area a,
                   synapses = fst (gen r (area_n a) (part_n part) (p c)),
                   beta = beta_of part (Area a)\<rparr>))
           \<and> connections c' (part, Area a) =
               Some (conn1\<lparr>synapses := (\<lambda>i j.
                  if \<not> plasticity_disabled c \<and> i \<in> set (source_neurons c part)
                     \<and> j \<in> set (winners c' a)
                  then synapses conn1 i j
                         * (1 + beta conn1) ^ count_list (sources_of request a) part
                  else synapses conn1 i j)\<rparr>)"
    by blast
qed

theorem fire_creates_missing_connections_witness:
  "fire ones_gen tenth_beta argsort (empty_connectome 1 ()) [(Stimulus stim0, [area1])]
     = Inr after_first_round
   \<and> (Stimulus stim0, [area1]) \<in> set [(Stimulus stim0, [area1])]
   \<and> area1 \<in> set [area1]
   \<and> connections (empty_connectome 1 ()) (Stimulus stim0, Area area1) = None
   \<and> connections after_first_round (Stimulus stim0, Area area1) \<noteq> None"
proof -
  have h: "fire ones_gen tenth_beta argsort (empty_connectome 1 ()) [(Stimulus stim0, [area1])]
     = Inr after_first_round"
    unfolding after_first_round_def by (rule Inr_projr [OF fire_stim0_area1])
  have n: "connections (empty_connectome 1 ()) (Stimulus stim0, Area area1) = None"
    by (simp add: empty_connectome_def)
  show ?thesis
    using h n
      fire_creates_missing_connections [where gen = ones_gen and beta_of = tenth_beta
        and ap = argsort and c = "empty_connectome 1 ()"
        and request = "[(Stimulus stim0, [area1])]" and c' = after_first_round
        and part = "Stimulus stim0" and dests = "[area1]" and a = area1]
    by auto
qed

text \<open>
  C4. In a round that returns, for a destination area \<open>a\<close>:
  the new winners of \<open>a\<close> are computed by \<open>select_winners\<close> on a connectome that has the
  winners of before the call and every connection of before the call unchanged (the
  missing connections of the round added), so on the connectome of before the call
  itself when no connection is missing; the plasticity step on the connection from an
  area \<open>s\<close> into \<open>a\<close> scales the rows of the winners that \<open>s\<close> had before the call, also
  when \<open>s\<close> is a destination of the same round; and the winners of \<open>a\<close> after the call are
  the new winners.
\<close>

theorem fire_update_order:
  assumes "fire gen beta_of ap c request = Inr c'" and "a \<in> set (destinations request)"
  shows "winners (ensure_all gen beta_of c (sources_mapping request)) = winners c
     \<and> (connections c key = Some conn0 \<longrightarrow>
          connections (ensure_all gen beta_of c (sources_mapping request)) key = Some conn0)
     \<and> select_winners ap (ensure_all gen beta_of c (sources_mapping request)) a
          (sources_of request a) = Inr (winners c' a)
     \<and> (list_all (\<lambda>src. connections c (src, Area a) \<noteq> None) (sources_of request a) \<longrightarrow>
          select_winners ap c a (sources_of request a) = Inr (winners c' a))
     \<and> (connections (ensure_all gen beta_of c (sources_mapping request)) (Area s, Area a)
            = Some conn \<longrightarrow> \<not> plasticity_disabled c \<longrightarrow>
          (\<exists>conn'. connections c' (Area s, Area a) = Some conn'
             \<and> (\<forall>i j. synapses conn' i j =
                  (if i \<in> set (winners c s) \<and> j \<in> set (winners c' a)
                   then synapses conn i j *
                          (1 + beta conn) ^ count_list (sources_of request a) (Area s)
                   else synapses conn i j))))"
proof (intro conjI impI)
  let ?c1 = "ensure_all gen beta_of c (sources_mapping request)"
  show "winners ?c1 = winners c" by simp
  show sel: "select_winners ap ?c1 a (sources_of request a) = Inr (winners c' a)"
    by (rule fire_effect(1) [OF assms])
  {
    assume "connections c key = Some conn0"
    then show "connections ?c1 key = Some conn0" by (rule ensure_all_keeps)
  }
  {
    assume l: "list_all (\<lambda>src. connections c (src, Area a) \<noteq> None) (sources_of request a)"
    have "select_winners ap ?c1 a (sources_of request a)
        = select_winners ap c a (sources_of request a)"
    proof (rule select_winners_ensure_all)
      fix src assume "src \<in> set (sources_of request a)"
      with l show "\<exists>conn. connections c (src, Area a) = Some conn"
        by (auto simp: list_all_iff)
    qed
    with sel show "select_winners ap c a (sources_of request a) = Inr (winners c' a)"
      by simp
  }
  {
    assume k: "connections ?c1 (Area s, Area a) = Some conn" and e: "\<not> plasticity_disabled c"
    from fire_synapses [OF assms(1) k] e
    show "\<exists>conn'. connections c' (Area s, Area a) = Some conn'
             \<and> (\<forall>i j. synapses conn' i j =
                  (if i \<in> set (winners c s) \<and> j \<in> set (winners c' a)
                   then synapses conn i j *
                          (1 + beta conn) ^ count_list (sources_of request a) (Area s)
                   else synapses conn i j))"
      by auto
  }
qed

theorem fire_update_order_witness:
  "fire ones_gen tenth_beta argsort after_second_round second_request = Inr after_third_round
   \<and> area1 \<in> set (destinations second_request)
   \<and> list_all (\<lambda>src. connections after_second_round (src, Area area1) \<noteq> None)
        (sources_of second_request area1)
   \<and> connections (ensure_all ones_gen tenth_beta after_second_round
        (sources_mapping second_request)) (Area area1, Area area1) = Some second_round_connection
   \<and> \<not> plasticity_disabled after_second_round
   \<and> select_winners argsort after_second_round area1 (sources_of second_request area1)
        = Inr (winners after_third_round area1)
   \<and> (\<exists>conn'. connections after_third_round (Area area1, Area area1) = Some conn'
       \<and> (\<forall>i j. synapses conn' i j =
            (if i \<in> set (winners after_second_round area1)
                \<and> j \<in> set (winners after_third_round area1)
             then synapses second_round_connection i j *
                    (1 + beta second_round_connection)
                      ^ count_list (sources_of second_request area1) (Area area1)
             else synapses second_round_connection i j)))"
proof -
  have h: "fire ones_gen tenth_beta argsort after_second_round second_request
      = Inr after_third_round"
    unfolding after_third_round_def by (rule Inr_projr [OF fire_third_round])
  have d: "area1 \<in> set (destinations second_request)"
    by (simp add: destinations_def second_request_def)
  have l: "list_all (\<lambda>src. connections after_second_round (src, Area area1) \<noteq> None)
        (sources_of second_request area1)"
    using after_second_round_connections(1,2) by (simp add: sources_of_second_request)
  have "connections after_second_round (Area area1, Area area1) = Some second_round_connection"
    using after_second_round_connections(1) by (auto simp: second_round_connection_def)
  then have k: "connections (ensure_all ones_gen tenth_beta after_second_round
        (sources_mapping second_request)) (Area area1, Area area1) = Some second_round_connection"
    by (rule ensure_all_keeps)
  note e = after_second_round_connections(3)
  show ?thesis
    using h d l k e
      fire_update_order [OF h d, of "(Area area1, Area area1)" second_round_connection area1
        second_round_connection]
    by blast
qed

text \<open>
  C5. The specification says that the plasticity step multiplies the entries from an
  active neuron of the source to a new winner of the area by \<open>1 + beta\<close>. A stimulus
  (two neurons) whose list of destinations holds the same area twice is listed twice
  among the sources of the area: the entry from neuron 0 to the new winner 2, generated
  as 1 with the rate \<open>1 / 10\<close>, is multiplied twice and becomes \<open>121 / 100\<close>, not
  \<open>1 * (1 + 1 / 10)\<close>.
\<close>

theorem fire_plasticity_factor_counterexample:
  "\<not> isl (fire ones_gen tenth_beta argsort (empty_connectome 1 ()) twice_request)
   \<and> \<not> plasticity_disabled (empty_connectome 1 ())
   \<and> 0 \<in> set (source_neurons (empty_connectome 1 ()) (Stimulus stim0))
   \<and> 2 \<in> set (winners (projr (fire ones_gen tenth_beta argsort (empty_connectome 1 ())
        twice_request)) area1)
   \<and> synapses (the (connections (ensure_all ones_gen tenth_beta (empty_connectome 1 ())
        (sources_mapping twice_request)) (Stimulus stim0, Area area1))) 0 2 = 1
   \<and> beta (the (connections (ensure_all ones_gen tenth_beta (empty_connectome 1 ())
        (sources_mapping twice_request)) (Stimulus stim0, Area area1))) = 1 / 10
   \<and> synapses (the (connections (projr (fire ones_gen tenth_beta argsort
        (empty_connectome 1 ()) twice_request)) (Stimulus stim0, Area area1))) 0 2 = 121 / 100
   \<and> synapses (the (connections (projr (fire ones_gen tenth_beta argsort
        (empty_connectome 1 ()) twice_request)) (Stimulus stim0, Area area1))) 0 2
      \<noteq> 1 * (1 + 1 / 10)"
  by (simp add: twice_request_def fire_defs ensure_all_def upt_rec numeral_2_eq_2
      numeral_3_eq_3 power2_eq_square)

text \<open>
  C5, as the code has it: with plasticity enabled, a round that returns leaves a
  connection from \<open>src\<close> into
  area \<open>a\<close> (as it stands once the missing connections of the round are created) with
  exactly these entries changed: those whose row is an active neuron of \<open>src\<close> (every
  index below \<open>n\<close> for a stimulus, the previous winners for an area) and whose column is a
  new winner of \<open>a\<close>, when \<open>src\<close> is a source of \<open>a\<close> in the round. Such an entry is
  multiplied by \<open>1 + beta\<close> once for each time \<open>src\<close> is listed as a source of \<open>a\<close>, so
  by \<open>1 + beta\<close> when it is listed once. Every other entry of every connection is
  unchanged, and so is the rate.
\<close>

theorem fire_plasticity_entries:
  assumes "fire gen beta_of ap c request = Inr c'" and "\<not> plasticity_disabled c"
    and "connections (ensure_all gen beta_of c (sources_mapping request)) (src, Area a)
           = Some conn"
  shows "(\<exists>conn'. connections c' (src, Area a) = Some conn' \<and> beta conn' = beta conn
       \<and> (\<forall>i j. synapses conn' i j =
            (if src \<in> set (sources_of request a) \<and> i \<in> set (source_neurons c src)
                \<and> j \<in> set (winners c' a)
             then synapses conn i j * (1 + beta conn) ^ count_list (sources_of request a) src
             else synapses conn i j))
       \<and> (count_list (sources_of request a) src = 1 \<longrightarrow>
            (\<forall>i j. synapses conn' i j =
              (if i \<in> set (source_neurons c src) \<and> j \<in> set (winners c' a)
               then synapses conn i j * (1 + beta conn) else synapses conn i j))))
     \<and> source_neurons c (Stimulus st) = [0..<stim_n st]
     \<and> source_neurons c (Area b) = winners c b
     \<and> connections c' (src, Stimulus st) = connections c (src, Stimulus st)"
proof -
  let ?m = "count_list (sources_of request a) src"
  from fire_synapses [OF assms(1,3)] assms(2) obtain conn' where
    c': "connections c' (src, Area a) = Some conn'" and b: "beta conn' = beta conn"
    and syn: "\<And>i j. synapses conn' i j =
          (if i \<in> set (source_neurons c src) \<and> j \<in> set (winners c' a)
           then synapses conn i j * (1 + beta conn) ^ ?m
           else synapses conn i j)"
    by auto
  have mem: "src \<in> set (sources_of request a) \<longleftrightarrow> ?m \<noteq> 0"
    by (simp add: count_list_0_iff)
  have 1: "\<forall>i j. synapses conn' i j =
            (if src \<in> set (sources_of request a) \<and> i \<in> set (source_neurons c src)
                \<and> j \<in> set (winners c' a)
             then synapses conn i j * (1 + beta conn) ^ ?m
             else synapses conn i j)"
    using mem by (auto simp: syn)
  have 2: "?m = 1 \<longrightarrow>
            (\<forall>i j. synapses conn' i j =
              (if i \<in> set (source_neurons c src) \<and> j \<in> set (winners c' a)
               then synapses conn i j * (1 + beta conn) else synapses conn i j))"
    by (simp add: syn)
  have 3: "connections c' (src, Stimulus st) = connections c (src, Stimulus st)"
    by (rule fire_effect(4) [OF assms(1)])
  show ?thesis using c' b 1 2 3 by simp
qed

theorem fire_plasticity_entries_witness:
  "fire ones_gen tenth_beta argsort after_first_round second_request = Inr after_second_round
   \<and> \<not> plasticity_disabled after_first_round
   \<and> connections (ensure_all ones_gen tenth_beta after_first_round
        (sources_mapping second_request)) (Stimulus stim0, Area area1)
       = Some first_round_connection
   \<and> count_list (sources_of second_request area1) (Stimulus stim0) = 1
   \<and> (\<exists>conn'. connections after_second_round (Stimulus stim0, Area area1) = Some conn'
       \<and> (\<forall>i j. synapses conn' i j =
              (if i \<in> set (source_neurons after_first_round (Stimulus stim0))
                  \<and> j \<in> set (winners after_second_round area1)
               then synapses first_round_connection i j * (1 + beta first_round_connection)
               else synapses first_round_connection i j)))"
proof -
  have k: "connections (ensure_all ones_gen tenth_beta after_first_round
        (sources_mapping second_request)) (Stimulus stim0, Area area1)
       = Some first_round_connection"
    using after_first_round_connection' by (rule ensure_all_keeps)
  have m: "count_list (sources_of second_request area1) (Stimulus stim0) = 1"
    by (simp add: sources_of_second_request)
  show ?thesis
    using fire_second_round' after_first_round_enabled k m
      fire_plasticity_entries [OF fire_second_round' after_first_round_enabled k]
    by blast
qed

text \<open>
  C6. For an area \<open>a\<close> with \<open>k \<le> n\<close> that is a destination of the request, after a round
  that returns the winner set of \<open>a\<close> holds exactly \<open>k\<close> distinct neuron indices, all
  below \<open>n\<close>, whatever ordering \<open>numpy.argpartition\<close> returns.
\<close>

theorem fire_winner_count:
  assumes "fire gen beta_of ap c request = Inr c'" and "index_permutation ap"
    and "a \<in> set (destinations request)" and "area_k a \<le> area_n a"
  shows "length (winners c' a) = area_k a \<and> distinct (winners c' a)
     \<and> (\<forall>i\<in>set (winners c' a). i < area_n a)"
  using select_winners_count [OF fire_effect(1) [OF assms(1,3)] assms(2,4)] .

theorem fire_winner_count_witness:
  "fire ones_gen tenth_beta argsort (empty_connectome 1 ()) [(Stimulus stim0, [area1])]
     = Inr (projr (fire ones_gen tenth_beta argsort (empty_connectome 1 ())
         [(Stimulus stim0, [area1])]))
   \<and> index_permutation argsort
   \<and> area1 \<in> set (destinations [(Stimulus stim0, [area1])])
   \<and> area_k area1 \<le> area_n area1
   \<and> length (winners (projr (fire ones_gen tenth_beta argsort (empty_connectome 1 ())
         [(Stimulus stim0, [area1])])) area1) = area_k area1
   \<and> distinct (winners (projr (fire ones_gen tenth_beta argsort (empty_connectome 1 ())
         [(Stimulus stim0, [area1])])) area1)
   \<and> list_all (\<lambda>i. i < area_n area1)
        (winners (projr (fire ones_gen tenth_beta argsort (empty_connectome 1 ())
         [(Stimulus stim0, [area1])])) area1)"
proof -
  have h: "fire ones_gen tenth_beta argsort (empty_connectome 1 ()) [(Stimulus stim0, [area1])]
     = Inr (projr (fire ones_gen tenth_beta argsort (empty_connectome 1 ())
         [(Stimulus stim0, [area1])]))"
    by (rule Inr_projr [OF fire_stim0_area1])
  have d: "area1 \<in> set (destinations [(Stimulus stim0, [area1])])"
    by (simp add: destinations_def)
  have k: "area_k area1 \<le> area_n area1" by (simp add: area1_def)
  show ?thesis
    using h d k index_permutation_argsort
      fire_winner_count [OF h index_permutation_argsort d k]
    by (simp only: list_all_iff) blast
qed

text \<open>
  C7. Across a round that returns, no entry of a connection with a non-negative rate
  and non-negative weights decreases: every entry stays the same or grows. An entry that
  grows belongs to a connection from a source of a destination area, plasticity is
  enabled, its row is an active neuron of the source and its column a new winner of the
  area.
\<close>

theorem fire_weights_monotone:
  assumes "fire gen beta_of ap c request = Inr c'"
    and "connections c (src, dst) = Some conn"
    and "0 \<le> beta conn" and "\<forall>i j. 0 \<le> synapses conn i j"
  shows "\<exists>conn'. connections c' (src, dst) = Some conn'
     \<and> (\<forall>i j. synapses conn i j \<le> synapses conn' i j
          \<and> (synapses conn i j < synapses conn' i j \<longrightarrow>
               \<not> plasticity_disabled c
               \<and> (\<exists>a. dst = Area a \<and> a \<in> set (destinations request)
                     \<and> src \<in> set (sources_of request a)
                     \<and> i \<in> set (source_neurons c src) \<and> j \<in> set (winners c' a))))"
proof (cases dst)
  case (Stimulus s)
  then have "connections c' (src, dst) = Some conn"
    using assms(2) by (simp add: fire_effect(4) [OF assms(1)])
  then show ?thesis using Stimulus by auto
next
  case (Area a)
  let ?m = "count_list (sources_of request a) src"
  have "connections (ensure_all gen beta_of c (sources_mapping request)) (src, Area a) = Some conn"
    using assms(2) unfolding Area by (rule ensure_all_keeps)
  from fire_synapses [OF assms(1) this] obtain conn' where
    c': "connections c' (src, Area a) = Some conn'"
    and syn: "\<And>i j. synapses conn' i j =
          (if \<not> plasticity_disabled c \<and> i \<in> set (source_neurons c src)
              \<and> j \<in> set (winners c' a)
           then synapses conn i j * (1 + beta conn) ^ ?m
           else synapses conn i j)"
    by blast
  have ge1: "1 \<le> (1 + beta conn) ^ ?m"
    using assms(3) by (simp add: one_le_power)
  have mem: "src \<in> set (sources_of request a) \<longleftrightarrow> ?m \<noteq> 0"
    by (simp add: count_list_0_iff)
  have dest: "src \<in> set (sources_of request a) \<Longrightarrow> a \<in> set (destinations request)"
    using sources_of_empty_iff [of request a] by (auto simp: set_destinations)
  have "synapses conn i j \<le> synapses conn' i j
          \<and> (synapses conn i j < synapses conn' i j \<longrightarrow>
               \<not> plasticity_disabled c
               \<and> (\<exists>b. dst = Area b \<and> b \<in> set (destinations request)
                     \<and> src \<in> set (sources_of request b)
                     \<and> i \<in> set (source_neurons c src) \<and> j \<in> set (winners c' b)))"
    for i j
  proof (intro conjI impI)
    have w: "0 \<le> synapses conn i j" using assms(4) by simp
    show "synapses conn i j \<le> synapses conn' i j"
      using mult_left_mono [OF ge1 w] by (simp add: syn)
    {
      assume lt: "synapses conn i j < synapses conn' i j"
      then have cond: "\<not> plasticity_disabled c" "i \<in> set (source_neurons c src)"
        "j \<in> set (winners c' a)"
        by (auto simp: syn split: if_splits)
      from lt have "?m \<noteq> 0" by (auto simp: syn split: if_splits intro: ccontr)
      then have s: "src \<in> set (sources_of request a)" by (simp add: mem)
      show "\<not> plasticity_disabled c" by (rule cond(1))
      show "\<exists>b. dst = Area b \<and> b \<in> set (destinations request)
                     \<and> src \<in> set (sources_of request b)
                     \<and> i \<in> set (source_neurons c src) \<and> j \<in> set (winners c' b)"
        using Area s dest [OF s] cond by blast
    }
  qed
  then show ?thesis using c' Area by blast
qed

theorem fire_weights_monotone_witness:
  "fire ones_gen tenth_beta argsort after_first_round second_request = Inr after_second_round
   \<and> connections after_first_round (Stimulus stim0, Area area1) = Some first_round_connection
   \<and> 0 \<le> beta first_round_connection
   \<and> (\<forall>i j. 0 \<le> synapses first_round_connection i j)
   \<and> (\<exists>conn'. connections after_second_round (Stimulus stim0, Area area1) = Some conn'
        \<and> (\<forall>i j. synapses first_round_connection i j \<le> synapses conn' i j))"
proof -
  have b: "0 \<le> beta first_round_connection" by (simp add: first_round_connection_def)
  have w: "\<forall>i j. 0 \<le> synapses first_round_connection i j"
    by (simp add: first_round_connection_def)
  show ?thesis
    using fire_second_round' after_first_round_connection' b w
      fire_weights_monotone [OF fire_second_round' after_first_round_connection' b w]
    by blast
qed

text \<open>
  C8. The specification says that every connection of the connectome has an area as its
  destination and that no registration creates a connection into a stimulus.
  \<open>_initialize_parts\<close> calls \<open>_initialize_connection(part, other)\<close> for every \<open>other\<close> in
  \<open>self.areas + self.stimuli\<close>, stimuli included, although \<open>_initialize_connection\<close>
  documents its second argument as the area the connection goes to and the reverse
  direction is guarded by \<open>isinstance(part, Area)\<close>. So registering a stimulus creates a
  connection from the stimulus into itself, and registering an area creates a connection
  from the area into every registered stimulus.
\<close>

theorem registration_connects_into_stimulus:
  "connections (add_stimulus gen beta_of c s) (Stimulus s, Stimulus s) \<noteq> None
   \<and> connections (add_area gen beta_of (c\<lparr>stimuli := t # ts\<rparr>) a) (Area a, Stimulus t) \<noteq> None"
proof
  show "connections (add_stimulus gen beta_of c s) (Stimulus s, Stimulus s) \<noteq> None"
    using foldl_initialize_pair_forward [of "Stimulus s"
        "all_parts (c\<lparr>stimuli := stimuli c @ [s]\<rparr>)" gen beta_of "Stimulus s"
        "c\<lparr>stimuli := stimuli c @ [s]\<rparr>"]
    by (auto simp: add_stimulus_def initialize_parts_def all_parts_def)
  show "connections (add_area gen beta_of (c\<lparr>stimuli := t # ts\<rparr>) a) (Area a, Stimulus t)
      \<noteq> None"
    using foldl_initialize_pair_forward [of "Stimulus t"
        "all_parts (c\<lparr>stimuli := t # ts, areas := areas c @ [a]\<rparr>)" gen beta_of "Area a"
        "c\<lparr>stimuli := t # ts, areas := areas c @ [a]\<rparr>"]
    by (auto simp: add_area_def initialize_parts_def all_parts_def)
qed

text \<open>
  C9. A round changes the winners of the destination areas of the request only, and the
  connections into those areas only; with plasticity disabled it changes no connection
  that existed. An area has no source in the round exactly when it is not a destination,
  and it is then left as it was; a request without any destination returns the connectome
  unchanged, without an error.
\<close>

theorem fire_frame:
  "(fire gen beta_of ap c request = Inr c' \<longrightarrow>
      (a \<notin> set (destinations request) \<longrightarrow>
         winners c' a = winners c a
         \<and> connections c' (src, Area a) = connections c (src, Area a))
      \<and> connections c' (src, Stimulus s) = connections c (src, Stimulus s)
      \<and> (plasticity_disabled c \<longrightarrow> connections c key = Some conn \<longrightarrow>
           connections c' key = Some conn))
   \<and> (sources_of request a = [] \<longleftrightarrow> a \<notin> set (destinations request))
   \<and> (destinations request = [] \<longrightarrow> fire gen beta_of ap c request = Inr c)"
proof (intro conjI impI)
  assume f: "fire gen beta_of ap c request = Inr c'"
  show "connections c' (src, Stimulus s) = connections c (src, Stimulus s)"
    by (rule fire_effect(4) [OF f])
  {
    assume a: "a \<notin> set (destinations request)"
    show "winners c' a = winners c a" by (rule fire_effect(2) [OF f a])
    have "sources_of request a = []"
      using a by (simp add: sources_of_empty_iff set_destinations)
    then have "round_connection (plasticity_disabled c) (source_neurons c src) (winners c' a)
          (count_list (sources_of request a) src) = (\<lambda>conn. conn)"
      by (simp add: fun_eq_iff round_connection_id)
    moreover have "connections (ensure_all gen beta_of c (sources_mapping request)) (src, Area a)
        = connections c (src, Area a)"
    proof (rule ensure_all_other)
      fix b srcs assume "(b, srcs) \<in> set (sources_mapping request)"
      then have "b \<in> fst ` set (sources_mapping request)" by force
      then have "b \<in> set (destinations request)" by (simp only: sources_mapping_keys')
      with a show "snd (src, Area a) \<noteq> Area b" by auto
    qed
    ultimately show "connections c' (src, Area a) = connections c (src, Area a)"
      by (simp add: fire_effect(3) [OF f] option.map_ident)
  }
  {
    assume dis: "plasticity_disabled c" and k: "connections c key = Some conn"
    obtain src' dst where key: "key = (src', dst)" by (cases key)
    show "connections c' key = Some conn"
    proof (cases dst)
      case (Area b)
      have "connections (ensure_all gen beta_of c (sources_mapping request)) key = Some conn"
        using k by (rule ensure_all_keeps)
      then show ?thesis
        using dis by (simp add: key Area fire_effect(3) [OF f] round_connection_id)
    next
      case (Stimulus t)
      then show ?thesis using k by (simp add: key fire_effect(4) [OF f])
    qed
  }
next
  show "sources_of request a = [] \<longleftrightarrow> a \<notin> set (destinations request)"
    by (simp add: sources_of_empty_iff set_destinations)
next
  assume "destinations request = []"
  then have "fst ` set (sources_mapping request) = {}"
    by (simp add: sources_mapping_keys')
  then have "sources_mapping request = []" by simp
  then show "fire gen beta_of ap c request = Inr c"
    by (simp add: fire_def update_connectomes_def update_winners_def)
qed

theorem fire_frame_witness:
  "fire ones_gen tenth_beta argsort (empty_connectome 1 ()) [(Stimulus stim0, [area1])]
     = Inr (projr (fire ones_gen tenth_beta argsort (empty_connectome 1 ())
         [(Stimulus stim0, [area1])]))
   \<and> MkArea 2 3 1 \<notin> set (destinations [(Stimulus stim0, [area1])])
   \<and> winners (projr (fire ones_gen tenth_beta argsort (empty_connectome 1 ())
         [(Stimulus stim0, [area1])])) (MkArea 2 3 1) = winners (empty_connectome 1 ()) (MkArea 2 3 1)
   \<and> destinations [(Stimulus stim0, [])] = []
   \<and> fire ones_gen tenth_beta argsort (empty_connectome 1 ()) [(Stimulus stim0, [])]
       = Inr (empty_connectome 1 ())"
proof -
  have h: "fire ones_gen tenth_beta argsort (empty_connectome 1 ()) [(Stimulus stim0, [area1])]
     = Inr (projr (fire ones_gen tenth_beta argsort (empty_connectome 1 ())
         [(Stimulus stim0, [area1])]))"
    by (rule Inr_projr [OF fire_stim0_area1])
  have d: "MkArea 2 3 1 \<notin> set (destinations [(Stimulus stim0, [area1])])"
    by (simp add: destinations_def area1_def)
  have e: "destinations [(Stimulus stim0, [])] = []" by (simp add: destinations_def)
  show ?thesis
    using h d e
      fire_frame [of ones_gen tenth_beta argsort "empty_connectome 1 ()"
        "[(Stimulus stim0, [area1])]"
        "projr (fire ones_gen tenth_beta argsort (empty_connectome 1 ())
           [(Stimulus stim0, [area1])])" "MkArea 2 3 1"]
      fire_frame [of ones_gen tenth_beta argsort "empty_connectome 1 ()"
        "[(Stimulus stim0, [])]"]
    by blast
qed

text \<open>
  C10. In a round that returns, a part whose list of destinations holds area \<open>a\<close> \<open>m\<close>
  times is listed \<open>m\<close> times among the sources of \<open>a\<close>. The input of every neuron of
  \<open>a\<close> is the sum of the inputs of the listed sources, one term for each listing, and the
  new winners are selected from these inputs. With plasticity enabled, the entries of
  the connection from the part into \<open>a\<close> whose row is an active neuron of the part and
  whose column is a new winner are multiplied by \<open>(1 + beta) ^ m\<close>, the others are
  unchanged.
\<close>

theorem fire_sources_multiset:
  assumes "fire gen beta_of ap c request = Inr c'"
    and "distinct (map fst request)" and "(part, dests) \<in> set request" and "a \<in> set dests"
  shows "count_list (sources_of request a) part = count_list dests a
     \<and> (\<exists>v order.
          prev_winner_inputs (ensure_all gen beta_of c (sources_mapping request)) a
            (sources_of request a) = Inr v
          \<and> length v = area_n a
          \<and> (\<forall>j. j < area_n a \<longrightarrow>
                v ! j = sum_list (map (\<lambda>src.
                  part_input (ensure_all gen beta_of c (sources_mapping request)) a src j)
                  (sources_of request a)))
          \<and> np_argpartition ap v (int (area_n a) - int (area_k a)) = Inr order
          \<and> winners c' a = last_k (area_k a) order)
     \<and> (\<not> plasticity_disabled c \<longrightarrow>
          (\<exists>conn conn'.
             connections (ensure_all gen beta_of c (sources_mapping request)) (part, Area a)
               = Some conn
             \<and> connections c' (part, Area a) = Some conn'
             \<and> (\<forall>i j. synapses conn' i j =
                  (if i \<in> set (source_neurons c part) \<and> j \<in> set (winners c' a)
                   then synapses conn i j * (1 + beta conn) ^ count_list dests a
                   else synapses conn i j))))"
proof (intro conjI impI)
  let ?c1 = "ensure_all gen beta_of c (sources_mapping request)"
  show cnt: "count_list (sources_of request a) part = count_list dests a"
    by (rule count_sources_of [OF assms(2,3)])
  have dest: "a \<in> set (destinations request)"
    using assms(3,4) by (force simp: set_destinations)
  from fire_effect(1) [OF assms(1) dest] obtain v order where
    v: "prev_winner_inputs ?c1 a (sources_of request a) = Inr v"
    and o: "np_argpartition ap v (int (area_n a) - int (area_k a)) = Inr order"
    and w: "winners c' a = last_k (area_k a) order"
    by (auto simp: select_winners_def split: sum.splits)
  have "length v = area_n a" using v by (rule prev_winner_inputs_length)
  moreover have "\<forall>j. j < area_n a \<longrightarrow>
      v ! j = sum_list (map (\<lambda>src. part_input ?c1 a src j) (sources_of request a))"
    using prev_winner_inputs_nth [OF v] by blast
  ultimately show "\<exists>v order.
          prev_winner_inputs ?c1 a (sources_of request a) = Inr v
          \<and> length v = area_n a
          \<and> (\<forall>j. j < area_n a \<longrightarrow>
                v ! j = sum_list (map (\<lambda>src. part_input ?c1 a src j) (sources_of request a)))
          \<and> np_argpartition ap v (int (area_n a) - int (area_k a)) = Inr order
          \<and> winners c' a = last_k (area_k a) order"
    using v o w by blast
  {
    assume e: "\<not> plasticity_disabled c"
    have "count_list dests a \<noteq> 0" using assms(4) by (simp add: count_list_0_iff)
    then have "part \<in> set (sources_of request a)"
      using cnt by (metis count_list_0_iff)
    from ensure_all_key [OF sources_mapping_mem [OF dest] this] obtain conn where
      k: "connections ?c1 (part, Area a) = Some conn" by blast
    from fire_synapses [OF assms(1) k] e k
    show "\<exists>conn conn'. connections ?c1 (part, Area a) = Some conn
             \<and> connections c' (part, Area a) = Some conn'
             \<and> (\<forall>i j. synapses conn' i j =
                  (if i \<in> set (source_neurons c part) \<and> j \<in> set (winners c' a)
                   then synapses conn i j * (1 + beta conn) ^ count_list dests a
                   else synapses conn i j))"
      by (auto simp: cnt)
  }
qed

theorem fire_sources_multiset_witness:
  "fire ones_gen tenth_beta argsort (empty_connectome 1 ()) twice_request
     = Inr (projr (fire ones_gen tenth_beta argsort (empty_connectome 1 ()) twice_request))
   \<and> distinct (map fst twice_request)
   \<and> (Stimulus stim0, [area1, area1]) \<in> set twice_request
   \<and> area1 \<in> set [area1, area1]
   \<and> \<not> plasticity_disabled (empty_connectome 1 ())
   \<and> count_list (sources_of twice_request area1) (Stimulus stim0) = 2
   \<and> (\<exists>conn conn'.
         connections (ensure_all ones_gen tenth_beta (empty_connectome 1 ())
           (sources_mapping twice_request)) (Stimulus stim0, Area area1) = Some conn
         \<and> connections (projr (fire ones_gen tenth_beta argsort (empty_connectome 1 ())
              twice_request)) (Stimulus stim0, Area area1) = Some conn'
         \<and> (\<forall>i j. synapses conn' i j =
              (if i \<in> set (source_neurons (empty_connectome 1 ()) (Stimulus stim0))
                  \<and> j \<in> set (winners (projr (fire ones_gen tenth_beta argsort
                        (empty_connectome 1 ()) twice_request)) area1)
               then synapses conn i j * (1 + beta conn) ^ 2
               else synapses conn i j)))"
proof -
  have h: "fire ones_gen tenth_beta argsort (empty_connectome 1 ()) twice_request
     = Inr (projr (fire ones_gen tenth_beta argsort (empty_connectome 1 ()) twice_request))"
    by (rule Inr_projr [OF fire_twice_request])
  have d: "distinct (map fst twice_request)" by (simp add: twice_request_def)
  have m: "(Stimulus stim0, [area1, area1]) \<in> set twice_request"
    by (simp add: twice_request_def)
  have a: "area1 \<in> set [area1, area1]" by simp
  have c: "count_list [area1, area1] area1 = 2" by simp
  show ?thesis
    using h d m a empty_connectome_enabled [of 1 "()"]
      fire_sources_multiset [OF h d m a]
    unfolding c by blast
qed

end
